theory Spec2Isabelle
  imports Main
begin

section \<open>Memory model\<close>

text \<open>
  The container of \<^verbatim>\<open>vector.h\<close> constructs and destroys objects in raw memory that it
  obtains from \<^verbatim>\<open>operator new\<close>. The model keeps that split: the heap is a list of blocks,
  a block is a list of slots, and a slot is either raw memory (\<open>None\<close>) or a live object
  (\<open>Some v\<close>). A block that was released is \<open>None\<close> in the list; its number is never reused,
  so a dangling pointer stays dangling. A pointer \<^verbatim>\<open>T*\<close> is the null pointer or a block
  number with a slot offset.

  \<open>avail\<close> counts the slots the allocator can still hand out: a request above it raises
  \<^verbatim>\<open>std::bad_alloc\<close>. Byte counts (\<^verbatim>\<open>n * sizeof(T)\<close>) are taken not to wrap.
\<close>

datatype ptr = Null | Ptr nat nat

text \<open>
  How a call can fail. \<open>BadAlloc\<close> and \<open>Thrown\<close> are C++ exceptions (the second one
  raised by an operation of the element type, with a code that tells exceptions apart);
  they unwind the stack and can be caught. \<open>AssertionFailed\<close> is a failed
  \<^verbatim>\<open>assert\<close>, \<open>UndefinedBehaviour\<close> is an access the language does not define (reading raw
  memory, releasing a pointer that \<^verbatim>\<open>operator new\<close> did not return, ...) and \<open>Terminated\<close>
  is an exception leaving a \<^verbatim>\<open>noexcept\<close> function; none of the three is an exception, and
  the state that comes with them means nothing.
\<close>

datatype error = BadAlloc | Thrown nat | AssertionFailed | UndefinedBehaviour | Terminated

fun is_exception :: "error \<Rightarrow> bool" where
  "is_exception BadAlloc = True"
| "is_exception (Thrown x) = True"
| "is_exception AssertionFailed = False"
| "is_exception UndefinedBehaviour = False"
| "is_exception Terminated = False"

record 'a heap =
  blocks :: "'a option list option list"
  avail :: nat

definition block_at :: "'a heap \<Rightarrow> nat \<Rightarrow> 'a option list option" where
  "block_at h b = (if b < length (blocks h) then blocks h ! b else None)"

subsection \<open>Sequencing of fallible, stateful steps\<close>

definition ret :: "'r \<Rightarrow> 's \<Rightarrow> (error + 'r) \<times> 's" where
  "ret x s = (Inr x, s)"

definition raise :: "error \<Rightarrow> 's \<Rightarrow> (error + 'r) \<times> 's" where
  "raise e s = (Inl e, s)"

definition andthen ::
  "('s \<Rightarrow> (error + 'q) \<times> 's) \<Rightarrow> ('q \<Rightarrow> 's \<Rightarrow> (error + 'r) \<times> 's) \<Rightarrow> 's \<Rightarrow> (error + 'r) \<times> 's" where
  "andthen m f s = (case m s of (Inl e, s') \<Rightarrow> (Inl e, s') | (Inr x, s') \<Rightarrow> f x s')"

text \<open>A pure step that may be undefined (pointer arithmetic), lifted into a sequence.\<close>

definition pure_step :: "error + 'r \<Rightarrow> 's \<Rightarrow> (error + 'r) \<times> 's" where
  "pure_step r s = (r, s)"

subsection \<open>Allocation\<close>

text \<open>\<^verbatim>\<open>operator new(n * sizeof(T))\<close>: a fresh block of \<open>n\<close> raw slots, or \<^verbatim>\<open>bad_alloc\<close>.\<close>

definition operator_new :: "nat \<Rightarrow> 'a heap \<Rightarrow> (error + ptr) \<times> 'a heap" where
  "operator_new n h =
     (if avail h < n then (Inl BadAlloc, h)
      else (Inr (Ptr (length (blocks h)) 0),
            h\<lparr>blocks := blocks h @ [Some (replicate n None)], avail := avail h - n\<rparr>))"

text \<open>
  \<^verbatim>\<open>operator delete(p)\<close>: nothing for the null pointer; releases the block when \<open>p\<close> is
  the address \<^verbatim>\<open>operator new\<close> returned for a block that is still allocated (no destructor
  runs: live slots are lost with it); undefined for every other pointer, so for a pointer
  into the middle of a block and for a block already released.
\<close>

definition operator_delete :: "ptr \<Rightarrow> 'a heap \<Rightarrow> (error + unit) \<times> 'a heap" where
  "operator_delete p h =
     (case p of
        Null \<Rightarrow> (Inr (), h)
      | Ptr b i \<Rightarrow>
          (case block_at h b of
             None \<Rightarrow> (Inl UndefinedBehaviour, h)
           | Some slots \<Rightarrow>
               if i = 0
               then (Inr (), h\<lparr>blocks := (blocks h)[b := None], avail := avail h + length slots\<rparr>)
               else (Inl UndefinedBehaviour, h)))"

subsection \<open>Pointers and slots\<close>

text \<open>
  \<open>ptr_plus\<close> is \<^verbatim>\<open>p + n\<close> for an unsigned \<open>n\<close>, \<open>ptr_add\<close> is \<^verbatim>\<open>p + k\<close> for a signed
  \<open>k\<close> (undefined when it leaves the block downwards, or moves the null pointer). The
  upper end of the block is checked when the pointer is used.
\<close>

fun ptr_plus :: "ptr \<Rightarrow> nat \<Rightarrow> ptr" where
  "ptr_plus Null n = Null"
| "ptr_plus (Ptr b i) n = Ptr b (i + n)"

fun ptr_add :: "ptr \<Rightarrow> int \<Rightarrow> error + ptr" where
  "ptr_add Null k = (if k = 0 then Inr Null else Inl UndefinedBehaviour)"
| "ptr_add (Ptr b i) k =
     (if 0 \<le> int i + k then Inr (Ptr b (nat (int i + k))) else Inl UndefinedBehaviour)"

text \<open>\<^verbatim>\<open>p - q\<close> and \<^verbatim>\<open>p <= q\<close>, defined for two pointers into one block (or two null pointers).\<close>

fun ptr_diff :: "ptr \<Rightarrow> ptr \<Rightarrow> error + int" where
  "ptr_diff Null Null = Inr 0"
| "ptr_diff (Ptr b i) (Ptr c j) = (if b = c then Inr (int i - int j) else Inl UndefinedBehaviour)"
| "ptr_diff Null (Ptr c j) = Inl UndefinedBehaviour"
| "ptr_diff (Ptr b i) Null = Inl UndefinedBehaviour"

fun ptr_le :: "ptr \<Rightarrow> ptr \<Rightarrow> bool" where
  "ptr_le Null Null = True"
| "ptr_le (Ptr b i) (Ptr c j) = (b = c \<and> i \<le> j)"
| "ptr_le Null (Ptr c j) = False"
| "ptr_le (Ptr b i) Null = False"

text \<open>
  \<open>load\<close> reads the object \<^verbatim>\<open>*p\<close>, which has to be live. \<open>put_slot\<close> overwrites a slot of an
  allocated block. \<open>construct_at\<close> is placement new with the value the constructor
  produced, \<open>destroy_at\<close> ends the lifetime of a live object and leaves raw memory, and
  \<open>assign_at\<close> gives a live object a new value.
\<close>

definition load :: "ptr \<Rightarrow> 'a heap \<Rightarrow> (error + 'a) \<times> 'a heap" where
  "load p h =
     (case p of
        Null \<Rightarrow> (Inl UndefinedBehaviour, h)
      | Ptr b i \<Rightarrow>
          (case block_at h b of
             None \<Rightarrow> (Inl UndefinedBehaviour, h)
           | Some slots \<Rightarrow>
               if i < length slots
               then (case slots ! i of
                       None \<Rightarrow> (Inl UndefinedBehaviour, h)
                     | Some v \<Rightarrow> (Inr v, h))
               else (Inl UndefinedBehaviour, h)))"

definition put_slot :: "ptr \<Rightarrow> 'a option \<Rightarrow> 'a heap \<Rightarrow> (error + unit) \<times> 'a heap" where
  "put_slot p x h =
     (case p of
        Null \<Rightarrow> (Inl UndefinedBehaviour, h)
      | Ptr b i \<Rightarrow>
          (case block_at h b of
             None \<Rightarrow> (Inl UndefinedBehaviour, h)
           | Some slots \<Rightarrow>
               if i < length slots
               then (Inr (), h\<lparr>blocks := (blocks h)[b := Some (slots[i := x])]\<rparr>)
               else (Inl UndefinedBehaviour, h)))"

definition construct_at :: "ptr \<Rightarrow> 'a \<Rightarrow> 'a heap \<Rightarrow> (error + unit) \<times> 'a heap" where
  "construct_at p v = put_slot p (Some v)"

definition destroy_at :: "ptr \<Rightarrow> 'a heap \<Rightarrow> (error + unit) \<times> 'a heap" where
  "destroy_at p = andthen (load p) (\<lambda>v. put_slot p None)"

definition assign_at :: "ptr \<Rightarrow> 'a \<Rightarrow> 'a heap \<Rightarrow> (error + unit) \<times> 'a heap" where
  "assign_at p v = andthen (load p) (\<lambda>old. put_slot p (Some v))"

section \<open>The element type\<close>

text \<open>
  The container is a template over the element type \<^verbatim>\<open>T\<close>. What it uses of \<^verbatim>\<open>T\<close> is
  taken as a parameter: the three type traits the source asks for, and the copy and move
  constructors and assignments. Each operation may throw (an exception code) instead of
  completing; a copy reads its source only, a move also leaves its source in a new state,
  and an assignment that throws still leaves both objects in some state.
  Destructors do not throw.
\<close>

record 'a elem_ops =
  nothrow_move_constructible :: bool
  copy_constructible :: bool
  nothrow_move_assignable :: bool
  copy_ctor :: "'a \<Rightarrow> nat + 'a"
  move_ctor :: "'a \<Rightarrow> (nat + 'a) \<times> 'a"
  copy_assign :: "'a \<Rightarrow> 'a \<Rightarrow> nat option \<times> 'a"
  move_assign :: "'a \<Rightarrow> 'a \<Rightarrow> nat option \<times> 'a \<times> 'a"

text \<open>
  \<open>copy_ctor T v\<close> is the outcome of \<^verbatim>\<open>T(const T&)\<close> on a source of value \<open>v\<close>;
  \<open>move_ctor T v\<close> is the outcome of \<^verbatim>\<open>T(T&&)\<close> with the state the source is left in;
  \<open>copy_assign T d s\<close> is \<^verbatim>\<open>d = s\<close>: the exception if any, and the new state of \<open>d\<close>;
  \<open>move_assign T d s\<close> is \<^verbatim>\<open>d = std::move(s)\<close>: the exception if any, and the new states
  of \<open>d\<close> and of \<open>s\<close>.
\<close>

subsection \<open>Element operations on slots\<close>

text \<open>\<^verbatim>\<open>new (p) T(args...)\<close>, given the outcome of the constructor call.\<close>

definition placement_new :: "ptr \<Rightarrow> nat + 'a \<Rightarrow> 'a heap \<Rightarrow> (error + unit) \<times> 'a heap" where
  "placement_new p ctor =
     (case ctor of Inl x \<Rightarrow> raise (Thrown x) | Inr v \<Rightarrow> construct_at p v)"

text \<open>\<^verbatim>\<open>new (d) T(const T& *s)\<close> and \<^verbatim>\<open>new (d) T(std::move(*s))\<close>.\<close>

definition copy_construct_at ::
  "'a elem_ops \<Rightarrow> ptr \<Rightarrow> ptr \<Rightarrow> 'a heap \<Rightarrow> (error + unit) \<times> 'a heap" where
  "copy_construct_at T d s =
     andthen (load s) (\<lambda>sv.
       case copy_ctor T sv of
         Inl x \<Rightarrow> raise (Thrown x)
       | Inr w \<Rightarrow> construct_at d w)"

definition move_construct_at ::
  "'a elem_ops \<Rightarrow> ptr \<Rightarrow> ptr \<Rightarrow> 'a heap \<Rightarrow> (error + unit) \<times> 'a heap" where
  "move_construct_at T d s =
     andthen (load s) (\<lambda>sv.
       case move_ctor T sv of
         (r, sv') \<Rightarrow>
           andthen (put_slot s (Some sv')) (\<lambda>u.
             case r of
               Inl x \<Rightarrow> raise (Thrown x)
             | Inr w \<Rightarrow> construct_at d w))"

text \<open>
  \<^verbatim>\<open>*d = *s\<close>, \<^verbatim>\<open>*d = std::move(*s)\<close> and \<^verbatim>\<open>*d = std::move(temp)\<close> for a local \<open>temp\<close>.
  (The source never assigns a slot to itself.)
\<close>

definition copy_assign_at ::
  "'a elem_ops \<Rightarrow> ptr \<Rightarrow> ptr \<Rightarrow> 'a heap \<Rightarrow> (error + unit) \<times> 'a heap" where
  "copy_assign_at T d s =
     andthen (load s) (\<lambda>sv.
     andthen (load d) (\<lambda>dv.
       case copy_assign T dv sv of
         (ex, dv') \<Rightarrow>
           andthen (put_slot d (Some dv')) (\<lambda>u.
             case ex of
               Some x \<Rightarrow> raise (Thrown x)
             | None \<Rightarrow> ret ())))"

definition move_assign_at ::
  "'a elem_ops \<Rightarrow> ptr \<Rightarrow> ptr \<Rightarrow> 'a heap \<Rightarrow> (error + unit) \<times> 'a heap" where
  "move_assign_at T d s =
     andthen (load s) (\<lambda>sv.
     andthen (load d) (\<lambda>dv.
       case move_assign T dv sv of
         (ex, dv', sv') \<Rightarrow>
           andthen (put_slot s (Some sv')) (\<lambda>u.
           andthen (put_slot d (Some dv')) (\<lambda>u.
             case ex of
               Some x \<Rightarrow> raise (Thrown x)
             | None \<Rightarrow> ret ()))))"

definition move_assign_from ::
  "'a elem_ops \<Rightarrow> ptr \<Rightarrow> 'a \<Rightarrow> 'a heap \<Rightarrow> (error + unit) \<times> 'a heap" where
  "move_assign_from T d temp =
     andthen (load d) (\<lambda>dv.
       case move_assign T dv temp of
         (ex, dv', temp') \<Rightarrow>
           andthen (put_slot d (Some dv')) (\<lambda>u.
             case ex of
               Some x \<Rightarrow> raise (Thrown x)
             | None \<Rightarrow> ret ()))"

section \<open>The standard algorithms the container calls\<close>

text \<open>\<^verbatim>\<open>std::destroy_n(p, n)\<close>.\<close>

fun destroy_n :: "ptr \<Rightarrow> nat \<Rightarrow> 'a heap \<Rightarrow> (error + unit) \<times> 'a heap" where
  "destroy_n p 0 h = (Inr (), h)"
| "destroy_n p (Suc n) h =
     (case destroy_at p h of
        (Inl e, h') \<Rightarrow> (Inl e, h')
      | (Inr u, h') \<Rightarrow> destroy_n (ptr_plus p 1) n h')"

text \<open>
  \<^verbatim>\<open>std::uninitialized_copy_n(first, n, d_first)\<close> and
  \<^verbatim>\<open>std::uninitialized_move_n(first, n, d_first)\<close>: construct \<^verbatim>\<open>d_first[k]\<close> from
  \<^verbatim>\<open>first[k]\<close> for \<open>k = 0, 1, ...\<close> while the count is positive; when a constructor throws,
  the \<open>k\<close> objects constructed so far are destroyed and the exception is rethrown. Both
  functions carry \<open>k\<close> and the number of elements still to do.
\<close>

fun uninitialized_copy_loop ::
  "'a elem_ops \<Rightarrow> ptr \<Rightarrow> ptr \<Rightarrow> nat \<Rightarrow> nat \<Rightarrow> 'a heap \<Rightarrow> (error + unit) \<times> 'a heap" where
  "uninitialized_copy_loop T first d_first k 0 h = (Inr (), h)"
| "uninitialized_copy_loop T first d_first k (Suc n) h =
     (case copy_construct_at T (ptr_plus d_first k) (ptr_plus first k) h of
        (Inl e, h') \<Rightarrow>
          (if is_exception e
           then (case destroy_n d_first k h' of
                   (Inl e', h'') \<Rightarrow> (Inl e', h'')
                 | (Inr u, h'') \<Rightarrow> (Inl e, h''))
           else (Inl e, h'))
      | (Inr u, h') \<Rightarrow> uninitialized_copy_loop T first d_first (Suc k) n h')"

fun uninitialized_move_loop ::
  "'a elem_ops \<Rightarrow> ptr \<Rightarrow> ptr \<Rightarrow> nat \<Rightarrow> nat \<Rightarrow> 'a heap \<Rightarrow> (error + unit) \<times> 'a heap" where
  "uninitialized_move_loop T first d_first k 0 h = (Inr (), h)"
| "uninitialized_move_loop T first d_first k (Suc n) h =
     (case move_construct_at T (ptr_plus d_first k) (ptr_plus first k) h of
        (Inl e, h') \<Rightarrow>
          (if is_exception e
           then (case destroy_n d_first k h' of
                   (Inl e', h'') \<Rightarrow> (Inl e', h'')
                 | (Inr u, h'') \<Rightarrow> (Inl e, h''))
           else (Inl e, h'))
      | (Inr u, h') \<Rightarrow> uninitialized_move_loop T first d_first (Suc k) n h')"

text \<open>The count is a signed or unsigned integer in the source; a count below 1 does nothing.\<close>

definition uninitialized_copy_n ::
  "'a elem_ops \<Rightarrow> ptr \<Rightarrow> int \<Rightarrow> ptr \<Rightarrow> 'a heap \<Rightarrow> (error + unit) \<times> 'a heap" where
  "uninitialized_copy_n T first n d_first = uninitialized_copy_loop T first d_first 0 (nat n)"

definition uninitialized_move_n ::
  "'a elem_ops \<Rightarrow> ptr \<Rightarrow> int \<Rightarrow> ptr \<Rightarrow> 'a heap \<Rightarrow> (error + unit) \<times> 'a heap" where
  "uninitialized_move_n T first n d_first = uninitialized_move_loop T first d_first 0 (nat n)"

text \<open>
  \<^verbatim>\<open>std::copy(first, last, d_first)\<close> and \<^verbatim>\<open>std::move(first, last, d_first)\<close> assign
  front to back; \<^verbatim>\<open>std::move_backward(first, last, d_last)\<close> assigns back to front. The
  number of steps is \<^verbatim>\<open>last - first\<close>; a range that runs backwards is undefined.
\<close>

fun copy_loop ::
  "'a elem_ops \<Rightarrow> ptr \<Rightarrow> ptr \<Rightarrow> nat \<Rightarrow> 'a heap \<Rightarrow> (error + unit) \<times> 'a heap" where
  "copy_loop T first d_first 0 h = (Inr (), h)"
| "copy_loop T first d_first (Suc n) h =
     (case copy_assign_at T d_first first h of
        (Inl e, h') \<Rightarrow> (Inl e, h')
      | (Inr u, h') \<Rightarrow> copy_loop T (ptr_plus first 1) (ptr_plus d_first 1) n h')"

fun move_loop ::
  "'a elem_ops \<Rightarrow> ptr \<Rightarrow> ptr \<Rightarrow> nat \<Rightarrow> 'a heap \<Rightarrow> (error + unit) \<times> 'a heap" where
  "move_loop T first d_first 0 h = (Inr (), h)"
| "move_loop T first d_first (Suc n) h =
     (case move_assign_at T d_first first h of
        (Inl e, h') \<Rightarrow> (Inl e, h')
      | (Inr u, h') \<Rightarrow> move_loop T (ptr_plus first 1) (ptr_plus d_first 1) n h')"

text \<open>
  In \<open>move_backward_loop\<close>, \<open>first\<close> and \<open>d_first\<close> are the starts of the source and of the
  destination range, and \<open>n\<close> elements remain: the next one moved is the last of them.
\<close>

fun move_backward_loop ::
  "'a elem_ops \<Rightarrow> ptr \<Rightarrow> ptr \<Rightarrow> nat \<Rightarrow> 'a heap \<Rightarrow> (error + unit) \<times> 'a heap" where
  "move_backward_loop T first d_first 0 h = (Inr (), h)"
| "move_backward_loop T first d_first (Suc n) h =
     (case move_assign_at T (ptr_plus d_first n) (ptr_plus first n) h of
        (Inl e, h') \<Rightarrow> (Inl e, h')
      | (Inr u, h') \<Rightarrow> move_backward_loop T first d_first n h')"

definition std_copy ::
  "'a elem_ops \<Rightarrow> ptr \<Rightarrow> ptr \<Rightarrow> ptr \<Rightarrow> 'a heap \<Rightarrow> (error + unit) \<times> 'a heap" where
  "std_copy T first last_it d_first =
     andthen (pure_step (ptr_diff last_it first)) (\<lambda>n.
       if n < 0 then raise UndefinedBehaviour else copy_loop T first d_first (nat n))"

definition std_move ::
  "'a elem_ops \<Rightarrow> ptr \<Rightarrow> ptr \<Rightarrow> ptr \<Rightarrow> 'a heap \<Rightarrow> (error + unit) \<times> 'a heap" where
  "std_move T first last_it d_first =
     andthen (pure_step (ptr_diff last_it first)) (\<lambda>n.
       if n < 0 then raise UndefinedBehaviour else move_loop T first d_first (nat n))"

definition std_move_backward ::
  "'a elem_ops \<Rightarrow> ptr \<Rightarrow> ptr \<Rightarrow> ptr \<Rightarrow> 'a heap \<Rightarrow> (error + unit) \<times> 'a heap" where
  "std_move_backward T first last_it d_last =
     andthen (pure_step (ptr_diff last_it first)) (\<lambda>n.
       if n < 0 then raise UndefinedBehaviour
       else andthen (pure_step (ptr_add d_last (- n))) (\<lambda>d_first.
              move_backward_loop T first d_first (nat n)))"

section \<open>Machine integers\<close>

text \<open>
  \<^verbatim>\<open>size_t\<close> values are natural numbers below \<open>2^64\<close> and \<^verbatim>\<open>int\<close> values are integers
  from \<open>-2^31\<close> up to \<open>2^31 - 1\<close> (the LP64 data model). \<open>to_int\<close> is the conversion to
  \<^verbatim>\<open>int\<close> and \<open>to_size_t\<close> the conversion to \<^verbatim>\<open>size_t\<close>; both wrap.
\<close>

definition to_int :: "int \<Rightarrow> int" where
  "to_int x = (x + 2147483648) mod 4294967296 - 2147483648"

definition to_size_t :: "int \<Rightarrow> nat" where
  "to_size_t x = nat (x mod 18446744073709551616)"

section \<open>RawMemory\<close>

text \<open>
  \<^verbatim>\<open>RawMemory<T>\<close> has the members \<^verbatim>\<open>buffer_\<close> and \<^verbatim>\<open>capacity_\<close> (the trailing underscore of
  a member is written \<open>_m\<close> here).
\<close>

record raw_memory =
  buffer_m :: ptr
  capacity_m :: nat

text \<open>\<^verbatim>\<open>RawMemory() = default\<close>: the default member initialisers.\<close>

definition RawMemory_default :: raw_memory where
  "RawMemory_default = \<lparr>buffer_m = Null, capacity_m = 0\<rparr>"

definition Allocate :: "nat \<Rightarrow> 'a heap \<Rightarrow> (error + ptr) \<times> 'a heap" where
  "Allocate n h = (if n \<noteq> 0 then operator_new n h else (Inr Null, h))"

definition Deallocate :: "ptr \<Rightarrow> 'a heap \<Rightarrow> (error + unit) \<times> 'a heap" where
  "Deallocate buf h = operator_delete buf h"

text \<open>\<^verbatim>\<open>explicit RawMemory(size_t capacity)\<close>.\<close>

definition RawMemory_ctor :: "nat \<Rightarrow> 'a heap \<Rightarrow> (error + raw_memory) \<times> 'a heap" where
  "RawMemory_ctor capacity h =
     (case Allocate capacity h of
        (Inl e, h') \<Rightarrow> (Inl e, h')
      | (Inr p, h') \<Rightarrow> (Inr \<lparr>buffer_m = p, capacity_m = capacity\<rparr>, h'))"

text \<open>
  \<^verbatim>\<open>RawMemory(RawMemory&& other)\<close> and \<^verbatim>\<open>operator=(RawMemory&& rhs)\<close>. \<^verbatim>\<open>std::move\<close> of a
  pointer or of a \<^verbatim>\<open>size_t\<close> is a cast; initialising or assigning from it copies the
  scalar and leaves the source as it was. Both return the destination and the source
  after the call; neither reads or writes the heap.
\<close>

definition RawMemory_move_ctor :: "raw_memory \<Rightarrow> raw_memory \<times> raw_memory" where
  "RawMemory_move_ctor other =
     (\<lparr>buffer_m = buffer_m other, capacity_m = capacity_m other\<rparr>, other)"

definition RawMemory_move_assign :: "raw_memory \<Rightarrow> raw_memory \<Rightarrow> raw_memory \<times> raw_memory" where
  "RawMemory_move_assign this rhs =
     (this\<lparr>buffer_m := buffer_m rhs, capacity_m := capacity_m rhs\<rparr>, rhs)"

text \<open>\<^verbatim>\<open>~RawMemory()\<close>.\<close>

definition RawMemory_dtor :: "raw_memory \<Rightarrow> 'a heap \<Rightarrow> (error + unit) \<times> 'a heap" where
  "RawMemory_dtor this h = Deallocate (buffer_m this) h"

text \<open>\<^verbatim>\<open>T* operator+(size_t offset)\<close>, with its assertion.\<close>

definition RawMemory_plus :: "raw_memory \<Rightarrow> nat \<Rightarrow> error + ptr" where
  "RawMemory_plus this offset =
     (if offset \<le> capacity_m this then Inr (ptr_plus (buffer_m this) offset)
      else Inl AssertionFailed)"

text \<open>\<^verbatim>\<open>void Swap(RawMemory& other)\<close>: returns both objects after the call.\<close>

definition RawMemory_Swap :: "raw_memory \<Rightarrow> raw_memory \<Rightarrow> raw_memory \<times> raw_memory" where
  "RawMemory_Swap this other =
     (this\<lparr>buffer_m := buffer_m other, capacity_m := capacity_m other\<rparr>,
      other\<lparr>buffer_m := buffer_m this, capacity_m := capacity_m this\<rparr>)"

definition GetAddress :: "raw_memory \<Rightarrow> ptr" where
  "GetAddress this = buffer_m this"

section \<open>Vector\<close>

record vector =
  data_m :: raw_memory
  size_m :: nat

text \<open>\<^verbatim>\<open>Vector() = default\<close>.\<close>

definition Vector_default :: vector where
  "Vector_default = \<lparr>data_m = RawMemory_default, size_m = 0\<rparr>"

definition Size :: "vector \<Rightarrow> nat" where
  "Size this = size_m this"

definition Capacity :: "vector \<Rightarrow> nat" where
  "Capacity this = capacity_m (data_m this)"

definition begin_it :: "vector \<Rightarrow> ptr" where
  "begin_it this = GetAddress (data_m this)"

definition end_it :: "vector \<Rightarrow> ptr" where
  "end_it this = ptr_plus (GetAddress (data_m this)) (size_m this)"

text \<open>\<^verbatim>\<open>void Swap(Vector& other) noexcept\<close>: returns both vectors after the call.\<close>

definition Swap :: "vector \<Rightarrow> vector \<Rightarrow> vector \<times> vector" where
  "Swap this other =
     (let (d, od) = RawMemory_Swap (data_m this) (data_m other)
      in (this\<lparr>data_m := d, size_m := size_m other\<rparr>,
          other\<lparr>data_m := od, size_m := size_m this\<rparr>))"

text \<open>
  \<^verbatim>\<open>Vector(Vector&& other) noexcept { Swap(other); }\<close>: the members of the new object are
  default-initialised, then swapped with \<open>other\<close>. Returns the new vector and \<open>other\<close>
  after the call.
\<close>

definition Vector_move_ctor :: "vector \<Rightarrow> vector \<times> vector" where
  "Vector_move_ctor other = Swap Vector_default other"

text \<open>
  The right-hand side of an assignment is either the assigned object itself or another
  object: that is what \<^verbatim>\<open>this != &rhs\<close> tests.
\<close>

datatype 'v operand = Self | Other 'v

text \<open>\<^verbatim>\<open>Vector& operator=(Vector&& rhs) noexcept\<close>: returns both after the call.\<close>

definition Vector_move_assign :: "vector \<Rightarrow> vector operand \<Rightarrow> vector \<times> vector operand" where
  "Vector_move_assign this rhs =
     (case rhs of
        Self \<Rightarrow> (this, Self)
      | Other r \<Rightarrow> (let (t', r') = Swap this r in (t', Other r')))"

text \<open>\<^verbatim>\<open>void PopBack() noexcept\<close>.\<close>

definition PopBack :: "vector \<Rightarrow> 'a heap \<Rightarrow> (error + unit) \<times> vector \<times> 'a heap" where
  "PopBack this h =
     (if size_m this > 0
      then (case destroy_at (ptr_plus (GetAddress (data_m this)) (size_m this - 1)) h of
              (Inl e, h') \<Rightarrow> (Inl e, this, h')
            | (Inr u, h') \<Rightarrow> (Inr (), this\<lparr>size_m := size_m this - 1\<rparr>, h'))
      else (Inr (), this, h))"

text \<open>
  A local \<^verbatim>\<open>RawMemory\<close> (or the member of an object under construction) is destroyed when
  an exception leaves its scope; the exception then travels on. A failed assertion or an
  undefined step unwinds nothing.
\<close>

definition unwind_RawMemory :: "raw_memory \<Rightarrow> error \<Rightarrow> 'a heap \<Rightarrow> (error + 'r) \<times> 'a heap" where
  "unwind_RawMemory local e h =
     (if is_exception e
      then (case RawMemory_dtor local h of
              (Inl e', h') \<Rightarrow> (Inl e', h')
            | (Inr u, h') \<Rightarrow> (Inl e, h'))
      else (Inl e, h))"

text \<open>
  \<^verbatim>\<open>void UninitializedConstructN(T* data, int pos, T* new_data)\<close>: the count is an
  \<^verbatim>\<open>int\<close>, so callers convert their \<^verbatim>\<open>size_t\<close> to it.
\<close>

definition UninitializedConstructN ::
  "'a elem_ops \<Rightarrow> ptr \<Rightarrow> int \<Rightarrow> ptr \<Rightarrow> 'a heap \<Rightarrow> (error + unit) \<times> 'a heap" where
  "UninitializedConstructN T data pos new_data =
     (if nothrow_move_constructible T \<or> \<not> copy_constructible T
      then uninitialized_move_n T data pos new_data
      else uninitialized_copy_n T data pos new_data)"

text \<open>\<^verbatim>\<open>void Reserve(size_t new_capacity)\<close>.\<close>

definition Reserve ::
  "'a elem_ops \<Rightarrow> nat \<Rightarrow> vector \<Rightarrow> 'a heap \<Rightarrow> (error + unit) \<times> vector \<times> 'a heap" where
  "Reserve T new_capacity this h =
     (if new_capacity \<le> capacity_m (data_m this) then (Inr (), this, h)
      else
        (case RawMemory_ctor new_capacity h of
           (Inl e, h0) \<Rightarrow> (Inl e, this, h0)
         | (Inr new_data, h0) \<Rightarrow>
             (case andthen
                     (UninitializedConstructN T (GetAddress (data_m this))
                        (to_int (int (size_m this))) (GetAddress new_data)) (\<lambda>u.
                     destroy_n (GetAddress (data_m this)) (size_m this)) h0 of
                (Inl e, h1) \<Rightarrow>
                  (case unwind_RawMemory new_data e h1 of (r, h2) \<Rightarrow> (r, this, h2))
              | (Inr u, h1) \<Rightarrow>
                  (let (d, nd) = RawMemory_Swap (data_m this) new_data
                   in case RawMemory_dtor nd h1 of
                        (Inl e, h2) \<Rightarrow> (Inl e, this\<lparr>data_m := d\<rparr>, h2)
                      | (Inr u, h2) \<Rightarrow> (Inr (), this\<lparr>data_m := d\<rparr>, h2)))))"

text \<open>
  \<^verbatim>\<open>T& EmplaceBack(Args&&... args)\<close>. \<open>ctor\<close> is the outcome of \<^verbatim>\<open>T(args...)\<close>: the
  exception it throws or the value it constructs. The arguments are taken not to refer to
  an element that the call moves. The result is the address of the new element.
\<close>

definition EmplaceBack ::
  "'a elem_ops \<Rightarrow> nat + 'a \<Rightarrow> vector \<Rightarrow> 'a heap \<Rightarrow> (error + ptr) \<times> vector \<times> 'a heap" where
  "EmplaceBack T ctor this h =
     (if size_m this = Capacity this
      then
        (case RawMemory_ctor
                (if size_m this = 0 then 1 else to_size_t (int (size_m this) * 2)) h of
           (Inl e, h0) \<Rightarrow> (Inl e, this, h0)
         | (Inr new_data, h0) \<Rightarrow>
             (case andthen (pure_step (RawMemory_plus new_data (size_m this))) (\<lambda>result.
                   andthen (placement_new result ctor) (\<lambda>u.
                   andthen
                     (UninitializedConstructN T (GetAddress (data_m this))
                        (to_int (int (size_m this))) (GetAddress new_data)) (\<lambda>u.
                   andthen (destroy_n (GetAddress (data_m this)) (size_m this)) (\<lambda>u.
                   ret result)))) h0 of
                (Inl e, h1) \<Rightarrow>
                  (case unwind_RawMemory new_data e h1 of (r, h2) \<Rightarrow> (r, this, h2))
              | (Inr result, h1) \<Rightarrow>
                  (let (d, nd) = RawMemory_Swap (data_m this) new_data
                   in case RawMemory_dtor nd h1 of
                        (Inl e, h2) \<Rightarrow> (Inl e, this\<lparr>data_m := d\<rparr>, h2)
                      | (Inr u, h2) \<Rightarrow>
                          (Inr result, this\<lparr>data_m := d, size_m := size_m this + 1\<rparr>, h2))))
      else
        (case andthen (pure_step (RawMemory_plus (data_m this) (size_m this))) (\<lambda>result.
              andthen (placement_new result ctor) (\<lambda>u.
              ret result)) h of
           (Inl e, h1) \<Rightarrow> (Inl e, this, h1)
         | (Inr result, h1) \<Rightarrow> (Inr result, this\<lparr>size_m := size_m this + 1\<rparr>, h1)))"

text \<open>
  \<^verbatim>\<open>void PushBack(const T& value)\<close> and \<^verbatim>\<open>void PushBack(T&& value)\<close>: the new element is
  copy-constructed, or move-constructed, from \<open>value\<close> (an object outside the vector).
\<close>

definition discard :: "(error + 'r) \<times> 's \<Rightarrow> (error + unit) \<times> 's" where
  "discard r = (case r of (Inl e, s) \<Rightarrow> (Inl e, s) | (Inr x, s) \<Rightarrow> (Inr (), s))"

definition PushBack ::
  "'a elem_ops \<Rightarrow> 'a \<Rightarrow> vector \<Rightarrow> 'a heap \<Rightarrow> (error + unit) \<times> vector \<times> 'a heap" where
  "PushBack T v this h = discard (EmplaceBack T (copy_ctor T v) this h)"

definition PushBack_rvalue ::
  "'a elem_ops \<Rightarrow> 'a \<Rightarrow> vector \<Rightarrow> 'a heap \<Rightarrow> (error + unit) \<times> vector \<times> 'a heap" where
  "PushBack_rvalue T v this h = discard (EmplaceBack T (fst (move_ctor T v)) this h)"

text \<open>
  \<^verbatim>\<open>iterator Emplace(const_iterator pos, Args&&... args)\<close>. \<open>offset\<close> is an \<^verbatim>\<open>int\<close>.
  \<open>Emplace_inplace\<close> is the body of the \<^verbatim>\<open>try\<close> block of the path that does not
  reallocate.
\<close>

definition Emplace_inplace ::
  "'a elem_ops \<Rightarrow> nat + 'a \<Rightarrow> ptr \<Rightarrow> int \<Rightarrow> vector \<Rightarrow> 'a heap \<Rightarrow> (error + unit) \<times> 'a heap" where
  "Emplace_inplace T ctor pos offset this =
     (if pos \<noteq> end_it this
      then
        (case ctor of
           Inl x \<Rightarrow> raise (Thrown x)
         | Inr temp \<Rightarrow>
             andthen (pure_step (ptr_add (end_it this) (- 1))) (\<lambda>back.
             andthen (move_construct_at T (end_it this) back) (\<lambda>u.
             andthen (pure_step (ptr_add (begin_it this) offset)) (\<lambda>p.
             andthen (std_move_backward T p back (end_it this)) (\<lambda>u.
             move_assign_from T p temp)))))
      else placement_new (end_it this) ctor)"

definition Emplace ::
  "'a elem_ops \<Rightarrow> nat + 'a \<Rightarrow> ptr \<Rightarrow> vector \<Rightarrow> 'a heap \<Rightarrow> (error + ptr) \<times> vector \<times> 'a heap" where
  "Emplace T ctor pos this h =
     (if \<not> (ptr_le (begin_it this) pos \<and> ptr_le pos (end_it this))
      then (Inl AssertionFailed, this, h)
      else
        (case ptr_diff pos (begin_it this) of
           Inl e \<Rightarrow> (Inl e, this, h)
         | Inr diff \<Rightarrow>
             (let offset = to_int diff in
              if capacity_m (data_m this) \<le> size_m this
              then
                (case RawMemory_ctor
                        (if size_m this = 0 then 1 else to_size_t (int (size_m this) * 2)) h of
                   (Inl e, h0) \<Rightarrow> (Inl e, this, h0)
                 | (Inr new_data, h0) \<Rightarrow>
                     (case andthen (pure_step (ptr_add (GetAddress new_data) offset)) (\<lambda>p.
                           andthen (placement_new p ctor) (\<lambda>u.
                           andthen
                             (UninitializedConstructN T (GetAddress (data_m this)) offset
                                (GetAddress new_data)) (\<lambda>u.
                           andthen (pure_step (ptr_add (GetAddress (data_m this)) offset)) (\<lambda>src.
                           andthen (pure_step (ptr_add (GetAddress new_data) (offset + 1))) (\<lambda>dst.
                           andthen
                             (UninitializedConstructN T src
                                (to_int (int (to_size_t (int (size_m this) - offset)))) dst) (\<lambda>u.
                           destroy_n (GetAddress (data_m this)) (size_m this))))))) h0 of
                        (Inl e, h1) \<Rightarrow>
                          (case unwind_RawMemory new_data e h1 of (r, h2) \<Rightarrow> (r, this, h2))
                      | (Inr u, h1) \<Rightarrow>
                          (let (d, nd) = RawMemory_Swap (data_m this) new_data
                           in case RawMemory_dtor nd h1 of
                                (Inl e, h2) \<Rightarrow> (Inl e, this\<lparr>data_m := d\<rparr>, h2)
                              | (Inr u, h2) \<Rightarrow>
                                  (let this' = this\<lparr>data_m := d, size_m := size_m this + 1\<rparr>
                                   in (ptr_add (begin_it this') offset, this', h2)))))
              else
                (case Emplace_inplace T ctor pos offset this h of
                   (Inl e, h1) \<Rightarrow>
                     (if is_exception e
                      then (case operator_delete (end_it this) h1 of
                              (Inl e', h2) \<Rightarrow> (Inl e', this, h2)
                            | (Inr u, h2) \<Rightarrow> (Inl e, this, h2))
                      else (Inl e, this, h1))
                 | (Inr u, h1) \<Rightarrow>
                     (let this' = this\<lparr>size_m := size_m this + 1\<rparr>
                      in (ptr_add (begin_it this') offset, this', h1))))))"

text \<open>\<^verbatim>\<open>iterator Insert(const_iterator pos, const T& value)\<close> and the overload for \<^verbatim>\<open>T&&\<close>.\<close>

definition Insert ::
  "'a elem_ops \<Rightarrow> ptr \<Rightarrow> 'a \<Rightarrow> vector \<Rightarrow> 'a heap \<Rightarrow> (error + ptr) \<times> vector \<times> 'a heap" where
  "Insert T pos v this h = Emplace T (copy_ctor T v) pos this h"

definition Insert_rvalue ::
  "'a elem_ops \<Rightarrow> ptr \<Rightarrow> 'a \<Rightarrow> vector \<Rightarrow> 'a heap \<Rightarrow> (error + ptr) \<times> vector \<times> 'a heap" where
  "Insert_rvalue T pos v this h = Emplace T (fst (move_ctor T v)) pos this h"

text \<open>
  \<^verbatim>\<open>iterator Erase(const_iterator pos) noexcept(std::is_nothrow_move_assignable_v<T>)\<close>;
  \<open>offset\<close> is a \<^verbatim>\<open>size_t\<close> here. An exception that would leave the function while the
  trait holds ends the program.
\<close>

definition Erase ::
  "'a elem_ops \<Rightarrow> ptr \<Rightarrow> vector \<Rightarrow> 'a heap \<Rightarrow> (error + ptr) \<times> vector \<times> 'a heap" where
  "Erase T pos this h =
     (if \<not> (ptr_le (begin_it this) pos \<and> ptr_le pos (end_it this) \<and> pos \<noteq> end_it this)
      then (Inl AssertionFailed, this, h)
      else
        (case ptr_diff pos (begin_it this) of
           Inl e \<Rightarrow> (Inl e, this, h)
         | Inr diff \<Rightarrow>
             (let offset = to_size_t diff in
              case std_move T (ptr_plus (begin_it this) (offset + 1)) (end_it this)
                     (ptr_plus (begin_it this) offset) h of
                (Inl e, h1) \<Rightarrow>
                  (if nothrow_move_assignable T \<and> is_exception e then (Inl Terminated, this, h1)
                   else (Inl e, this, h1))
              | (Inr u, h1) \<Rightarrow>
                  (case PopBack this h1 of
                     (Inl e, this', h2) \<Rightarrow> (Inl e, this', h2)
                   | (Inr u, this', h2) \<Rightarrow>
                       (Inr (ptr_plus (begin_it this') offset), this', h2)))))"

text \<open>\<^verbatim>\<open>Vector(const Vector& other)\<close> and \<^verbatim>\<open>~Vector()\<close>.\<close>

definition Vector_copy_ctor ::
  "'a elem_ops \<Rightarrow> vector \<Rightarrow> 'a heap \<Rightarrow> (error + vector) \<times> 'a heap" where
  "Vector_copy_ctor T other h =
     (case RawMemory_ctor (size_m other) h of
        (Inl e, h0) \<Rightarrow> (Inl e, h0)
      | (Inr d, h0) \<Rightarrow>
          (case uninitialized_copy_n T (GetAddress (data_m other)) (int (size_m other))
                  (GetAddress d) h0 of
             (Inl e, h1) \<Rightarrow> unwind_RawMemory d e h1
           | (Inr u, h1) \<Rightarrow> (Inr \<lparr>data_m = d, size_m = size_m other\<rparr>, h1)))"

definition Vector_dtor :: "vector \<Rightarrow> 'a heap \<Rightarrow> (error + unit) \<times> 'a heap" where
  "Vector_dtor this =
     andthen (destroy_n (GetAddress (data_m this)) (size_m this)) (\<lambda>u.
     RawMemory_dtor (data_m this))"

text \<open>\<^verbatim>\<open>Vector& operator=(const Vector& rhs)\<close>.\<close>

definition Vector_copy_assign ::
  "'a elem_ops \<Rightarrow> vector operand \<Rightarrow> vector \<Rightarrow> 'a heap \<Rightarrow> (error + unit) \<times> vector \<times> 'a heap" where
  "Vector_copy_assign T rhs this h =
     (case rhs of
        Self \<Rightarrow> (Inr (), this, h)
      | Other r \<Rightarrow>
          if size_m r > capacity_m (data_m this)
          then
            (case Vector_copy_ctor T r h of
               (Inl e, h1) \<Rightarrow> (Inl e, this, h1)
             | (Inr rhs_copy, h1) \<Rightarrow>
                 (let (this', rhs_copy') = Swap this rhs_copy
                  in case Vector_dtor rhs_copy' h1 of
                       (Inl e, h2) \<Rightarrow> (Inl e, this', h2)
                     | (Inr u, h2) \<Rightarrow> (Inr (), this', h2)))
          else
            (case (if size_m this > size_m r
                   then
                     andthen
                       (std_copy T (GetAddress (data_m r))
                          (ptr_plus (GetAddress (data_m r)) (size_m r))
                          (GetAddress (data_m this))) (\<lambda>u.
                     destroy_n (ptr_plus (GetAddress (data_m this)) (size_m r))
                       (size_m this - size_m r))
                   else
                     andthen
                       (std_copy T (GetAddress (data_m r))
                          (ptr_plus (GetAddress (data_m r)) (size_m this))
                          (GetAddress (data_m this))) (\<lambda>u.
                     uninitialized_copy_n T (ptr_plus (GetAddress (data_m r)) (size_m this))
                       (int (size_m r - size_m this))
                       (ptr_plus (GetAddress (data_m this)) (size_m this)))) h of
               (Inl e, h1) \<Rightarrow> (Inl e, this, h1)
             | (Inr u, h1) \<Rightarrow> (Inr (), this\<lparr>size_m := size_m r\<rparr>, h1)))"

section \<open>What a vector holds\<close>

text \<open>
  The invariant of the container, with the sequence it stands for: \<open>represents v h xs\<close>
  says that \<open>v\<close> has size \<open>length xs\<close> within its capacity, owns no block when its capacity
  is zero, and otherwise points to the start of an allocated block of \<open>capacity\<close> slots
  whose first \<open>size\<close> slots are the live objects \<open>xs\<close>, in order, the rest raw memory.
  The capacity is a \<^verbatim>\<open>size_t\<close>, so it is below \<open>2^64\<close>.
\<close>

definition represents :: "vector \<Rightarrow> 'a heap \<Rightarrow> 'a list \<Rightarrow> bool" where
  "represents v h xs \<longleftrightarrow>
     size_m v = length xs \<and> length xs \<le> capacity_m (data_m v) \<and>
     capacity_m (data_m v) < 18446744073709551616 \<and>
     (case buffer_m (data_m v) of
        Null \<Rightarrow> capacity_m (data_m v) = 0
      | Ptr b i \<Rightarrow>
          i = 0 \<and> 0 < capacity_m (data_m v) \<and>
          block_at h b = Some (map Some xs @ replicate (capacity_m (data_m v) - length xs) None))"

section \<open>Notions used to state the properties\<close>

text \<open>Replacing one block of the heap.\<close>

definition set_block :: "'a heap \<Rightarrow> nat \<Rightarrow> 'a option list option \<Rightarrow> 'a heap" where
  "set_block h b s = h\<lparr>blocks := (blocks h)[b := s]\<rparr>"

text \<open>
  Element types whose operations do what their names say: a copy or a move constructs
  an object equal to its source and does not throw; an assignment gives the target the
  value of its source and does not throw. (What a move leaves in its source is free.)
\<close>

definition faithful_copy :: "'a elem_ops \<Rightarrow> bool" where
  "faithful_copy T \<longleftrightarrow> (\<forall>v. copy_ctor T v = Inr v)"

definition faithful_move :: "'a elem_ops \<Rightarrow> bool" where
  "faithful_move T \<longleftrightarrow> (\<forall>v. fst (move_ctor T v) = Inr v)"

definition faithful_copy_assign :: "'a elem_ops \<Rightarrow> bool" where
  "faithful_copy_assign T \<longleftrightarrow> (\<forall>d s. copy_assign T d s = (None, s))"

definition faithful_move_assign :: "'a elem_ops \<Rightarrow> bool" where
  "faithful_move_assign T \<longleftrightarrow>
     (\<forall>d s. fst (move_assign T d s) = None \<and> fst (snd (move_assign T d s)) = s)"

text \<open>Element types whose move assignment, or move constructor, cannot throw.\<close>

definition move_assign_cannot_throw :: "'a elem_ops \<Rightarrow> bool" where
  "move_assign_cannot_throw T \<longleftrightarrow> (\<forall>d s. fst (move_assign T d s) = None)"

definition move_ctor_cannot_throw :: "'a elem_ops \<Rightarrow> bool" where
  "move_ctor_cannot_throw T \<longleftrightarrow> (\<forall>v. \<exists>w. fst (move_ctor T v) = Inr w)"

text \<open>
  What move-assigning each element of \<open>ys\<close> onto its left neighbour computes, when the
  left neighbour of the first one holds \<open>x\<close>: the new values of these left neighbours, and
  the state in which the last source is left.
\<close>

fun shift_left :: "'a elem_ops \<Rightarrow> 'a \<Rightarrow> 'a list \<Rightarrow> 'a list \<times> 'a" where
  "shift_left T x [] = ([], x)"
| "shift_left T x (y # ys) =
     (case move_assign T x y of
        (ex, x', y') \<Rightarrow> (case shift_left T y' ys of (zs, z) \<Rightarrow> (x' # zs, z)))"

text \<open>
  \<open>moves_complete T x ys\<close>: none of these move assignments throws.
  \<open>move_assign_transfers T\<close>: a move assignment that completes has given its target the
  value of its source.
\<close>

fun moves_complete :: "'a elem_ops \<Rightarrow> 'a \<Rightarrow> 'a list \<Rightarrow> bool" where
  "moves_complete T x [] = True"
| "moves_complete T x (y # ys) =
     (case move_assign T x y of (ex, x', y') \<Rightarrow> ex = None \<and> moves_complete T y' ys)"

definition move_assign_transfers :: "'a elem_ops \<Rightarrow> bool" where
  "move_assign_transfers T \<longleftrightarrow>
     (\<forall>d s. fst (move_assign T d s) = None \<longrightarrow> fst (snd (move_assign T d s)) = s)"

text \<open>Two vectors that do not share a block.\<close>

definition disjoint_storage :: "vector \<Rightarrow> vector \<Rightarrow> bool" where
  "disjoint_storage a b \<longleftrightarrow>
     buffer_m (data_m a) = Null \<or> buffer_m (data_m a) \<noteq> buffer_m (data_m b)"

text \<open>
  Copying a sequence \<open>ss\<close>. \<open>copy_transfers T\<close>: a copy construction or copy assignment
  that completes has produced the value of its source. \<open>assigns_complete T ds ss\<close>: none
  of the copy assignments of \<open>ss\<close> onto the objects \<open>ds\<close>, element by element, throws;
  \<open>assigned T ds ss\<close> are the values they leave in these objects.
  \<open>copies_complete T ss\<close>: none of the copy constructions from the elements of \<open>ss\<close>
  throws; \<open>copied T ss\<close> are the values they construct.
\<close>

definition copy_transfers :: "'a elem_ops \<Rightarrow> bool" where
  "copy_transfers T \<longleftrightarrow>
     (\<forall>v w. copy_ctor T v = Inr w \<longrightarrow> w = v) \<and>
     (\<forall>d s. fst (copy_assign T d s) = None \<longrightarrow> snd (copy_assign T d s) = s)"

definition assigns_complete :: "'a elem_ops \<Rightarrow> 'a list \<Rightarrow> 'a list \<Rightarrow> bool" where
  "assigns_complete T ds ss = list_all2 (\<lambda>d s. fst (copy_assign T d s) = None) ds ss"

definition assigned :: "'a elem_ops \<Rightarrow> 'a list \<Rightarrow> 'a list \<Rightarrow> 'a list" where
  "assigned T ds ss = map2 (\<lambda>d s. snd (copy_assign T d s)) ds ss"

definition copies_complete :: "'a elem_ops \<Rightarrow> 'a list \<Rightarrow> bool" where
  "copies_complete T ss = list_all (\<lambda>s. \<not> isl (copy_ctor T s)) ss"

definition copied :: "'a elem_ops \<Rightarrow> 'a list \<Rightarrow> 'a list" where
  "copied T ss = map (\<lambda>s. case copy_ctor T s of Inl x \<Rightarrow> s | Inr w \<Rightarrow> w) ss"

text \<open>
  The rule \<^verbatim>\<open>UninitializedConstructN\<close> follows, for element types whose chosen way of
  relocation (move, or else copy) produces the value of its source and does not throw.
\<close>

definition faithful_relocation :: "'a elem_ops \<Rightarrow> bool" where
  "faithful_relocation T \<longleftrightarrow>
     (if nothrow_move_constructible T \<or> \<not> copy_constructible T then faithful_move T
      else faithful_copy T)"

text \<open>
  The capacity a growing vector of \<open>n\<close> elements asks for, \<^verbatim>\<open>size_ == 0 ? 1 : size_ * 2\<close>,
  while the product fits \<^verbatim>\<open>size_t\<close>.
\<close>

definition grown :: "nat \<Rightarrow> nat" where
  "grown n = (if n = 0 then 1 else 2 * n)"

text \<open>Consecutive calls of \<^verbatim>\<open>PushBack(const T&)\<close>, stopping at the first that fails.\<close>

fun PushBack_all ::
  "'a elem_ops \<Rightarrow> 'a list \<Rightarrow> vector \<Rightarrow> 'a heap \<Rightarrow> (error + unit) \<times> vector \<times> 'a heap" where
  "PushBack_all T [] this h = (Inr (), this, h)"
| "PushBack_all T (x # xs) this h =
     (case PushBack T x this h of
        (Inl e, this', h') \<Rightarrow> (Inl e, this', h')
      | (Inr u, this', h') \<Rightarrow> PushBack_all T xs this' h')"

text \<open>
  The capacities the specification gives for pushing onto an empty vector: 0, and then
  doubling, with 1 as the least, whenever the next push exceeds the capacity reached.
\<close>

fun progression :: "nat \<Rightarrow> nat" where
  "progression 0 = 0"
| "progression (Suc k) =
     (if Suc k > progression k then max 1 (2 * progression k) else progression k)"

text \<open>
  Notions for the exception guarantees. \<open>in_block p b\<close>: the pointer \<open>p\<close> points into block
  \<open>b\<close>. For a step \<open>m\<close> on the heap, \<open>keeps b m\<close>: \<open>m\<close> never changes block \<open>b\<close>;
  \<open>no_throw m\<close>: \<open>m\<close> never ends in an exception; \<open>keeps_on_throw b m\<close>: when \<open>m\<close> ends in an
  exception, block \<open>b\<close> is as it was.
\<close>

fun in_block :: "ptr \<Rightarrow> nat \<Rightarrow> bool" where
  "in_block Null b = False"
| "in_block (Ptr c i) b = (c = b)"

definition keeps :: "nat \<Rightarrow> ('a heap \<Rightarrow> (error + 'r) \<times> 'a heap) \<Rightarrow> bool" where
  "keeps b m \<longleftrightarrow> (\<forall>h. block_at (snd (m h)) b = block_at h b)"

definition no_throw :: "('a heap \<Rightarrow> (error + 'r) \<times> 'a heap) \<Rightarrow> bool" where
  "no_throw m \<longleftrightarrow> (\<forall>h e. fst (m h) = Inl e \<longrightarrow> \<not> is_exception e)"

definition keeps_on_throw :: "nat \<Rightarrow> ('a heap \<Rightarrow> (error + 'r) \<times> 'a heap) \<Rightarrow> bool" where
  "keeps_on_throw b m \<longleftrightarrow>
     (\<forall>h e. fst (m h) = Inl e \<and> is_exception e \<longrightarrow> block_at (snd (m h)) b = block_at h b)"

text \<open>
  \<open>no_bad_alloc m\<close>: the step \<open>m\<close> never ends in \<^verbatim>\<open>std::bad_alloc\<close>.
  \<open>allocates_nothing m\<close>: \<open>m\<close> neither allocates nor releases a block.
\<close>

definition no_bad_alloc :: "('a heap \<Rightarrow> (error + 'r) \<times> 'a heap) \<Rightarrow> bool" where
  "no_bad_alloc m \<longleftrightarrow> (\<forall>h. fst (m h) \<noteq> Inl BadAlloc)"

definition allocates_nothing :: "('a heap \<Rightarrow> (error + 'r) \<times> 'a heap) \<Rightarrow> bool" where
  "allocates_nothing m \<longleftrightarrow>
     (\<forall>h. length (blocks (snd (m h))) = length (blocks h) \<and> avail (snd (m h)) = avail h)"

text \<open>
  \<open>relocates_by_copy T\<close>: \<^verbatim>\<open>UninitializedConstructN\<close> copies the elements of type \<open>T\<close> (its
  \<^verbatim>\<open>else\<close> branch). \<open>strong_relocation T\<close>: \<open>T\<close> can be copied or has a move constructor marked
  non-throwing, and a move constructor marked non-throwing does not throw.
\<close>

definition relocates_by_copy :: "'a elem_ops \<Rightarrow> bool" where
  "relocates_by_copy T \<longleftrightarrow> \<not> (nothrow_move_constructible T \<or> \<not> copy_constructible T)"

definition strong_relocation :: "'a elem_ops \<Rightarrow> bool" where
  "strong_relocation T \<longleftrightarrow>
     (nothrow_move_constructible T \<or> copy_constructible T) \<and>
     (nothrow_move_constructible T \<longrightarrow> move_ctor_cannot_throw T)"

section \<open>Example states\<close>

text \<open>
  A vector of \<^verbatim>\<open>int\<close> with the elements 10 and 20 in a block of capacity 4, and the heap
  that holds only this block; and a heap with no block at all.
\<close>

definition ex_vec :: vector where
  "ex_vec = \<lparr>data_m = \<lparr>buffer_m = Ptr 0 0, capacity_m = 4\<rparr>, size_m = 2\<rparr>"

definition ex_heap :: "int heap" where
  "ex_heap = \<lparr>blocks = [Some [Some 10, Some 20, None, None]], avail = 100\<rparr>"

definition empty_heap :: "int heap" where
  "empty_heap = \<lparr>blocks = [], avail = 100\<rparr>"

text \<open>
  An element type that behaves like \<^verbatim>\<open>int\<close>: nothing throws, copies and moves produce
  the value of their source, and a move leaves its source as it was.
\<close>

definition int_ops :: "int elem_ops" where
  "int_ops =
     \<lparr>nothrow_move_constructible = True, copy_constructible = True,
      nothrow_move_assignable = True,
      copy_ctor = (\<lambda>v. Inr v), move_ctor = (\<lambda>v. (Inr v, v)),
      copy_assign = (\<lambda>d s. (None, s)), move_assign = (\<lambda>d s. (None, s, s))\<rparr>"

text \<open>A vector with the elements 10, 20, 30 in a block of capacity 4.\<close>

definition ex_vec3 :: vector where
  "ex_vec3 = \<lparr>data_m = \<lparr>buffer_m = Ptr 0 0, capacity_m = 4\<rparr>, size_m = 3\<rparr>"

definition ex_heap3 :: "int heap" where
  "ex_heap3 = \<lparr>blocks = [Some [Some 10, Some 20, Some 30, None]], avail = 100\<rparr>"

text \<open>
  A vector with the five elements 1, ..., 5 in block 0, and a source vector with the two
  elements 7 and 8 in block 1.
\<close>

definition ex_vec5 :: vector where
  "ex_vec5 = \<lparr>data_m = \<lparr>buffer_m = Ptr 0 0, capacity_m = 5\<rparr>, size_m = 5\<rparr>"

definition ex_src2 :: vector where
  "ex_src2 = \<lparr>data_m = \<lparr>buffer_m = Ptr 1 0, capacity_m = 2\<rparr>, size_m = 2\<rparr>"

definition ex_heap52 :: "int heap" where
  "ex_heap52 =
     \<lparr>blocks = [Some [Some 1, Some 2, Some 3, Some 4, Some 5], Some [Some 7, Some 8]],
      avail = 100\<rparr>"

text \<open>An empty heap with room for \<open>2^34\<close> elements.\<close>

definition big_heap :: "int heap" where
  "big_heap = \<lparr>blocks = [], avail = 17179869184\<rparr>"

text \<open>
  A full vector of \<open>2^31\<close> elements of \<^verbatim>\<open>int\<close>, all 0, in block 0 of a heap with room for
  \<open>2^33\<close> more elements.
\<close>

definition big_vec :: vector where
  "big_vec = \<lparr>data_m = \<lparr>buffer_m = Ptr 0 0, capacity_m = 2147483648\<rparr>, size_m = 2147483648\<rparr>"

definition big_full_heap :: "int heap" where
  "big_full_heap = \<lparr>blocks = [Some (map Some (replicate 2147483648 0))], avail = 8589934592\<rparr>"

text \<open>
  An element type that can be copied, whose copy constructor and move assignment throw
  when their source has the value 13; and an element type that can only be moved, whose
  move constructor throws for a source of value 13 and otherwise leaves the value 0 in
  its source.
\<close>

definition throw_ops :: "int elem_ops" where
  "throw_ops =
     \<lparr>nothrow_move_constructible = False, copy_constructible = True,
      nothrow_move_assignable = False,
      copy_ctor = (\<lambda>v. if v = 13 then Inl 1 else Inr v),
      move_ctor = (\<lambda>v. (Inr v, v)),
      copy_assign = (\<lambda>d s. (None, s)),
      move_assign = (\<lambda>d s. if s = 13 then (Some 2, d, s) else (None, s, s))\<rparr>"

definition moveonly_ops :: "int elem_ops" where
  "moveonly_ops =
     \<lparr>nothrow_move_constructible = False, copy_constructible = False,
      nothrow_move_assignable = False,
      copy_ctor = (\<lambda>v. Inr v),
      move_ctor = (\<lambda>v. if v = 13 then (Inl 1, v) else (Inr v, 0)),
      copy_assign = (\<lambda>d s. (None, s)),
      move_assign = (\<lambda>d s. (None, s, 0))\<rparr>"

text \<open>
  A full vector with the elements 10 and 13, and a vector with the elements 13, 20, 30
  and one free slot.
\<close>

definition ex_full2 :: vector where
  "ex_full2 = \<lparr>data_m = \<lparr>buffer_m = Ptr 0 0, capacity_m = 2\<rparr>, size_m = 2\<rparr>"

definition ex_heap_full2 :: "int heap" where
  "ex_heap_full2 = \<lparr>blocks = [Some [Some 10, Some 13]], avail = 100\<rparr>"

definition ex_vec13 :: vector where
  "ex_vec13 = \<lparr>data_m = \<lparr>buffer_m = Ptr 0 0, capacity_m = 4\<rparr>, size_m = 3\<rparr>"

definition ex_heap13 :: "int heap" where
  "ex_heap13 = \<lparr>blocks = [Some [Some 13, Some 20, Some 30, None]], avail = 100\<rparr>"

text \<open>
  A full vector with the elements 10, 20, 13, 30. A vector with the elements 10 and 20
  and capacity 4 in block 0, with a source vector of three elements in block 1: 7, 8, 9
  in one heap and 7, 8, 13 in the other.
\<close>

definition ex_vec4 :: vector where
  "ex_vec4 = \<lparr>data_m = \<lparr>buffer_m = Ptr 0 0, capacity_m = 4\<rparr>, size_m = 4\<rparr>"

definition ex_heap4 :: "int heap" where
  "ex_heap4 = \<lparr>blocks = [Some [Some 10, Some 20, Some 13, Some 30]], avail = 100\<rparr>"

definition ex_vec2 :: vector where
  "ex_vec2 = \<lparr>data_m = \<lparr>buffer_m = Ptr 0 0, capacity_m = 4\<rparr>, size_m = 2\<rparr>"

definition ex_src3 :: vector where
  "ex_src3 = \<lparr>data_m = \<lparr>buffer_m = Ptr 1 0, capacity_m = 3\<rparr>, size_m = 3\<rparr>"

definition ex_heap23 :: "int heap" where
  "ex_heap23 =
     \<lparr>blocks = [Some [Some 10, Some 20, None, None], Some [Some 7, Some 8, Some 9]], avail = 100\<rparr>"

definition ex_heap23_throw :: "int heap" where
  "ex_heap23_throw =
     \<lparr>blocks = [Some [Some 10, Some 20, None, None], Some [Some 7, Some 8, Some 13]], avail = 100\<rparr>"

section \<open>Properties\<close>

subsection \<open>Helper facts\<close>

lemma block_at_update_same:
  "b < length (blocks h) \<Longrightarrow> block_at (h\<lparr>blocks := (blocks h)[b := x]\<rparr>) b = x"
  by (simp add: block_at_def)

lemma block_at_update_other:
  "c \<noteq> b \<Longrightarrow> block_at (h\<lparr>blocks := (blocks h)[b := x]\<rparr>) c = block_at h c"
  by (simp add: block_at_def)

lemma block_at_Some_less: "block_at h b = Some s \<Longrightarrow> b < length (blocks h)"
  by (simp add: block_at_def split: if_splits)

lemma butlast_slots:
  assumes "xs \<noteq> []" "length xs \<le> c"
  shows "(map Some xs @ replicate (c - length xs) None)[length xs - 1 := None]
         = map Some (butlast xs) @ replicate (c - length (butlast xs)) None"
proof -
  obtain ys y where xs: "xs = ys @ [y]"
    using assms(1) by (metis append_butlast_last_id)
  have c: "c - length ys = Suc (c - Suc (length ys))"
    using assms(2) xs by simp
  show ?thesis
    using assms(2) by (simp add: xs list_update_append c)
qed

subsection \<open>Blocks and slots\<close>

lemma block_at_set_block_same [simp]:
  "b < length (blocks h) \<Longrightarrow> block_at (set_block h b s) b = s"
  by (simp add: block_at_def set_block_def)

lemma block_at_set_block_other [simp]:
  "c \<noteq> b \<Longrightarrow> block_at (set_block h b s) c = block_at h c"
  by (simp add: block_at_def set_block_def)

lemma set_block_twice [simp]: "set_block (set_block h b s) b t = set_block h b t"
  by (simp add: set_block_def)

lemma length_blocks_set_block [simp]: "length (blocks (set_block h b s)) = length (blocks h)"
  by (simp add: set_block_def)

lemma avail_set_block [simp]: "avail (set_block h b s) = avail h"
  by (simp add: set_block_def)

lemma set_block_id: "block_at h b = Some s \<Longrightarrow> set_block h b (Some s) = h"
proof -
  assume a: "block_at h b = Some s"
  then have "b < length (blocks h)" and "blocks h ! b = Some s"
    by (simp_all add: block_at_def split: if_splits)
  then have "(blocks h)[b := Some s] = blocks h"
    by (metis list_update_id)
  then show ?thesis by (simp add: set_block_def)
qed

lemma load_mid:
  "block_at h b = Some (pre @ Some v # post) \<Longrightarrow> length pre = i \<Longrightarrow> load (Ptr b i) h = (Inr v, h)"
  by (auto simp: load_def nth_append)

lemma put_slot_mid:
  "block_at h b = Some (pre @ y # post) \<Longrightarrow> length pre = i \<Longrightarrow>
   put_slot (Ptr b i) x h = (Inr (), set_block h b (Some (pre @ x # post)))"
  by (auto simp: put_slot_def set_block_def)

lemma destroy_at_mid:
  "block_at h b = Some (pre @ Some v # post) \<Longrightarrow> length pre = i \<Longrightarrow>
   destroy_at (Ptr b i) h = (Inr (), set_block h b (Some (pre @ None # post)))"
  by (simp add: destroy_at_def andthen_def load_mid put_slot_mid)

lemma construct_at_mid:
  "block_at h b = Some (pre @ y # post) \<Longrightarrow> length pre = i \<Longrightarrow>
   construct_at (Ptr b i) x h = (Inr (), set_block h b (Some (pre @ Some x # post)))"
  by (simp add: construct_at_def put_slot_mid)

lemma destroy_n_mid:
  "block_at h b = Some (pre @ map Some ys @ post) \<Longrightarrow> length pre = i \<Longrightarrow>
   destroy_n (Ptr b i) (length ys) h
     = (Inr (), set_block h b (Some (pre @ replicate (length ys) None @ post)))"
proof (induction ys arbitrary: pre i h)
  case Nil
  then show ?case by (simp add: set_block_id)
next
  case (Cons y ys)
  have b: "b < length (blocks h)" using Cons.prems(1) by (rule block_at_Some_less)
  have d: "destroy_at (Ptr b i) h = (Inr (), set_block h b (Some (pre @ None # map Some ys @ post)))"
    using Cons.prems by (simp add: destroy_at_mid)
  have blk: "block_at (set_block h b (Some (pre @ None # map Some ys @ post))) b
             = Some ((pre @ [None]) @ map Some ys @ post)"
    using b by simp
  have "destroy_n (Ptr b (Suc i)) (length ys) (set_block h b (Some (pre @ None # map Some ys @ post)))
        = (Inr (), set_block (set_block h b (Some (pre @ None # map Some ys @ post))) b
             (Some ((pre @ [None]) @ replicate (length ys) None @ post)))"
    using Cons.prems(2) by (intro Cons.IH [OF blk]) simp
  then show ?case using d by simp
qed

lemma move_assign_at_adjacent_down:
  assumes "block_at h b = Some (pre @ Some dv # Some sv # post)" "length pre = i"
  shows "move_assign_at T (Ptr b i) (Ptr b (Suc i)) h =
     (case move_assign T dv sv of
        (ex, dv', sv') \<Rightarrow>
          ((case ex of Some x \<Rightarrow> Inl (Thrown x) | None \<Rightarrow> Inr ()),
           set_block h b (Some (pre @ Some dv' # Some sv' # post))))"
proof -
  have b: "b < length (blocks h)" using assms(1) by (rule block_at_Some_less)
  have l1: "load (Ptr b (Suc i)) h = (Inr sv, h)"
    using load_mid [of h b "pre @ [Some dv]" sv post "Suc i"] assms by simp
  have l2: "load (Ptr b i) h = (Inr dv, h)"
    using load_mid [of h b pre dv "Some sv # post" i] assms by simp
  have p1: "\<And>x. put_slot (Ptr b (Suc i)) x h = (Inr (), set_block h b (Some (pre @ Some dv # x # post)))"
    using put_slot_mid [of h b "pre @ [Some dv]" "Some sv" post "Suc i"] assms by simp
  have p2: "\<And>x y. put_slot (Ptr b i) y (set_block h b (Some (pre @ Some dv # x # post)))
        = (Inr (), set_block h b (Some (pre @ y # x # post)))"
    using put_slot_mid [of "set_block h b (Some (pre @ Some dv # x # post))" b pre "Some dv" "x # post" i for x] assms(2) b
    by simp
  show ?thesis
    by (simp add: move_assign_at_def andthen_def l1 l2 p1 p2 ret_def raise_def split: prod.splits option.splits)
qed

lemma move_loop_shift:
  "block_at h b = Some (pre @ Some x # map Some ys @ post) \<Longrightarrow> length pre = i \<Longrightarrow>
   moves_complete T x ys \<Longrightarrow>
    move_loop T (Ptr b (Suc i)) (Ptr b i) (length ys) h
      = (Inr (), set_block h b (Some (pre @ map Some (fst (shift_left T x ys))
                                        @ Some (snd (shift_left T x ys)) # post)))"
proof (induction ys arbitrary: pre x i h)
  case Nil
  then show ?case by (simp add: set_block_id)
next
  case (Cons y ys)
  obtain ex x' y' where ma: "move_assign T x y = (ex, x', y')" by (cases "move_assign T x y") auto
  have ex: "ex = None" and mc: "moves_complete T y' ys" using Cons.prems(3) ma by simp_all
  have b: "b < length (blocks h)" using Cons.prems(1) by (rule block_at_Some_less)
  let ?h1 = "set_block h b (Some (pre @ Some x' # Some y' # map Some ys @ post))"
  have st: "move_assign_at T (Ptr b i) (Ptr b (Suc i)) h = (Inr (), ?h1)"
    using move_assign_at_adjacent_down [of h b pre x y "map Some ys @ post" i T] Cons.prems(1,2) ma ex by simp
  have blk: "block_at ?h1 b = Some ((pre @ [Some x']) @ Some y' # map Some ys @ post)"
    using b by simp
  have "move_loop T (Ptr b (Suc (Suc i))) (Ptr b (Suc i)) (length ys) ?h1
        = (Inr (), set_block ?h1 b (Some ((pre @ [Some x']) @ map Some (fst (shift_left T y' ys))
                                        @ Some (snd (shift_left T y' ys)) # post)))"
    using Cons.prems(2) mc by (intro Cons.IH [OF blk]) simp_all
  then show ?case using st ma by (simp split: prod.splits)
qed

lemma move_loop_throws:
  "block_at h b = Some (pre @ Some x # map Some ys @ post) \<Longrightarrow> length pre = i \<Longrightarrow>
   \<not> moves_complete T x ys \<Longrightarrow>
    \<exists>n. fst (move_loop T (Ptr b (Suc i)) (Ptr b i) (length ys) h) = Inl (Thrown n)"
proof (induction ys arbitrary: pre x i h)
  case Nil
  then show ?case by simp
next
  case (Cons y ys)
  obtain ex x' y' where ma: "move_assign T x y = (ex, x', y')" by (cases "move_assign T x y") auto
  have b: "b < length (blocks h)" using Cons.prems(1) by (rule block_at_Some_less)
  let ?h1 = "set_block h b (Some (pre @ Some x' # Some y' # map Some ys @ post))"
  have st: "move_assign_at T (Ptr b i) (Ptr b (Suc i)) h
            = ((case ex of Some x \<Rightarrow> Inl (Thrown x) | None \<Rightarrow> Inr ()), ?h1)"
    using move_assign_at_adjacent_down [of h b pre x y "map Some ys @ post" i T] Cons.prems(1,2) ma by simp
  show ?case
  proof (cases ex)
    case (Some n)
    then show ?thesis using st by simp
  next
    case None
    then have mc: "\<not> moves_complete T y' ys" using Cons.prems(3) ma by simp
    have blk: "block_at ?h1 b = Some ((pre @ [Some x']) @ Some y' # map Some ys @ post)"
      using b by simp
    have "\<exists>n. fst (move_loop T (Ptr b (Suc (Suc i))) (Ptr b (Suc i)) (length ys) ?h1) = Inl (Thrown n)"
      using Cons.prems(2) mc by (intro Cons.IH [OF blk]) simp_all
    then show ?thesis using st None by simp
  qed
qed

lemma moves_complete_cannot_throw: "move_assign_cannot_throw T \<Longrightarrow> moves_complete T x ys"
  by (induction ys arbitrary: x) (simp_all add: move_assign_cannot_throw_def case_prod_beta)

lemma shift_left_length [simp]: "length (fst (shift_left T x ys)) = length ys"
  by (induction ys arbitrary: x) (simp_all add: case_prod_beta)

lemma shift_left_transfers:
  "move_assign_transfers T \<Longrightarrow> moves_complete T x ys \<Longrightarrow> fst (shift_left T x ys) = ys"
  by (induction ys arbitrary: x) (simp_all add: move_assign_transfers_def case_prod_beta)

lemma represents_nonempty_block:
  assumes "represents v h xs" "xs \<noteq> []"
  obtains b where "buffer_m (data_m v) = Ptr b 0"
    "block_at h b = Some (map Some xs @ replicate (capacity_m (data_m v) - length xs) None)"
    "b < length (blocks h)"
proof (cases "buffer_m (data_m v)")
  case Null
  with assms(1) have "length xs = 0" by (auto simp: represents_def)
  with assms(2) show ?thesis by simp
next
  case (Ptr b i)
  with assms(1) have "i = 0" and blk: "block_at h b = Some (map Some xs @ replicate (capacity_m (data_m v) - length xs) None)"
    by (simp_all add: represents_def)
  with Ptr that block_at_Some_less [OF blk] show ?thesis by simp
qed

lemma to_size_t_nat: "n < 18446744073709551616 \<Longrightarrow> to_size_t (int n) = n"
  by (simp add: to_size_t_def)

subsection \<open>Erase, step by step\<close>

lemma Erase_steps:
  assumes r: "represents v h xs" and off: "off < length xs"
  obtains b where "buffer_m (data_m v) = Ptr b 0" and "b < length (blocks h)"
    and "block_at h b = Some (map Some (take off xs) @ Some (xs ! off) # map Some (drop (Suc off) xs)
            @ replicate (capacity_m (data_m v) - length xs) None)"
    and "Erase T (ptr_plus (begin_it v) off) v h =
       (case move_loop T (Ptr b (Suc off)) (Ptr b off) (length xs - Suc off) h of
          (Inl e, h1) \<Rightarrow>
            (if nothrow_move_assignable T \<and> is_exception e then (Inl Terminated, v, h1)
             else (Inl e, v, h1))
        | (Inr u, h1) \<Rightarrow>
            (case PopBack v h1 of
               (Inl e, this', h2) \<Rightarrow> (Inl e, this', h2)
             | (Inr u, this', h2) \<Rightarrow> (Inr (ptr_plus (begin_it this') off), this', h2)))"
proof -
  let ?c = "capacity_m (data_m v)"
  let ?n = "length xs"
  from off have ne: "xs \<noteq> []" by auto
  from r ne obtain b where buf: "buffer_m (data_m v) = Ptr b 0"
    and blk: "block_at h b = Some (map Some xs @ replicate (?c - ?n) None)"
    and b: "b < length (blocks h)"
    by (rule represents_nonempty_block)
  from r have sz: "size_m v = ?n" and le: "?n \<le> ?c" and cb: "?c < 18446744073709551616"
    by (simp_all add: represents_def)
  have split: "map Some xs = map Some (take off xs) @ Some (xs ! off) # map Some (drop (Suc off) xs)"
    using off by (metis Cons_nth_drop_Suc append_take_drop_id list.simps(9) map_append)
  have blk1: "block_at h b = Some (map Some (take off xs) @ Some (xs ! off) # map Some (drop (Suc off) xs)
            @ replicate (?c - ?n) None)"
    using blk split by simp
  have sm: "std_move T (ptr_plus (begin_it v) (off + 1)) (end_it v) (ptr_plus (begin_it v) off) h
            = move_loop T (Ptr b (Suc off)) (Ptr b off) (?n - Suc off) h"
  proof -
    have n1: "nat (int ?n - int (Suc off)) = ?n - Suc off" by simp
    have n2: "\<not> int ?n - int (Suc off) < 0" using off by simp
    have "ptr_diff (Ptr b ?n) (Ptr b (Suc off)) = Inr (int ?n - int (Suc off))" by simp
    then show ?thesis
      using sz buf n1 n2
      by (simp add: std_move_def andthen_def pure_step_def begin_it_def end_it_def GetAddress_def
        raise_def del: ptr_diff.simps of_nat_Suc)
  qed
  have od: "to_size_t (int off) = off"
    using off le cb by (intro to_size_t_nat) simp
  have E: "Erase T (ptr_plus (begin_it v) off) v h =
       (case move_loop T (Ptr b (Suc off)) (Ptr b off) (length xs - Suc off) h of
          (Inl e, h1) \<Rightarrow>
            (if nothrow_move_assignable T \<and> is_exception e then (Inl Terminated, v, h1)
             else (Inl e, v, h1))
        | (Inr u, h1) \<Rightarrow>
            (case PopBack v h1 of
               (Inl e, this', h2) \<Rightarrow> (Inl e, this', h2)
             | (Inr u, this', h2) \<Rightarrow> (Inr (ptr_plus (begin_it this') off), this', h2)))"
    using off sz buf od sm [symmetric]
    by (simp add: Erase_def begin_it_def end_it_def GetAddress_def)
  show ?thesis using that [OF buf b blk1 E] .
qed

lemma Erase_general:
  assumes r: "represents v h xs" and off: "off < length xs"
    and mc: "moves_complete T (xs ! off) (drop (Suc off) xs)"
  defines "zs \<equiv> fst (shift_left T (xs ! off) (drop (Suc off) xs))"
  shows "fst (Erase T (ptr_plus (begin_it v) off) v h) = Inr (ptr_plus (begin_it v) off)"
    and "fst (snd (Erase T (ptr_plus (begin_it v) off) v h)) = v\<lparr>size_m := size_m v - 1\<rparr>"
    and "represents (fst (snd (Erase T (ptr_plus (begin_it v) off) v h)))
           (snd (snd (Erase T (ptr_plus (begin_it v) off) v h))) (take off xs @ zs)"
proof -
  let ?c = "capacity_m (data_m v)"
  let ?n = "length xs"
  let ?pre = "map Some (take off xs)"
  let ?ys = "drop (Suc off) xs"
  let ?post = "replicate (?c - ?n) None :: 'a option list"
  from off have ne: "xs \<noteq> []" by auto
  from Erase_steps [OF r off, of T] obtain b where buf: "buffer_m (data_m v) = Ptr b 0"
    and b: "b < length (blocks h)"
    and blk1: "block_at h b = Some (?pre @ Some (xs ! off) # map Some ?ys @ ?post)"
    and E0: "Erase T (ptr_plus (begin_it v) off) v h =
       (case move_loop T (Ptr b (Suc off)) (Ptr b off) (length xs - Suc off) h of
          (Inl e, h1) \<Rightarrow>
            (if nothrow_move_assignable T \<and> is_exception e then (Inl Terminated, v, h1)
             else (Inl e, v, h1))
        | (Inr u, h1) \<Rightarrow>
            (case PopBack v h1 of
               (Inl e, this', h2) \<Rightarrow> (Inl e, this', h2)
             | (Inr u, this', h2) \<Rightarrow> (Inr (ptr_plus (begin_it this') off), this', h2)))"
    by blast
  from r have sz: "size_m v = ?n" and le: "?n \<le> ?c" and cb: "?c < 18446744073709551616"
    by (simp_all add: represents_def)
  have lp: "length ?pre = off" using off by simp
  have ly: "length ?ys = ?n - Suc off" by simp
  let ?z = "snd (shift_left T (xs ! off) ?ys)"
  let ?h1 = "set_block h b (Some (?pre @ map Some zs @ Some ?z # ?post))"
  have ml: "move_loop T (Ptr b (Suc off)) (Ptr b off) (?n - Suc off) h = (Inr (), ?h1)"
    using move_loop_shift [OF blk1 lp mc] ly by (simp add: zs_def)
  have lz: "length zs = ?n - Suc off" by (simp add: zs_def)
  have blk2: "block_at ?h1 b = Some ((?pre @ map Some zs) @ Some ?z # ?post)"
    using b by simp
  have l2: "length (?pre @ map Some zs) = ?n - 1" using off lz by simp
  let ?h2 = "set_block h b (Some ((?pre @ map Some zs) @ None # ?post))"
  have da: "destroy_at (Ptr b (?n - 1)) ?h1 = (Inr (), ?h2)"
    using destroy_at_mid [OF blk2 l2] by simp
  have pb: "PopBack v ?h1 = (Inr (), v\<lparr>size_m := ?n - 1\<rparr>, ?h2)"
    using da ne sz buf by (simp add: PopBack_def GetAddress_def)
  have E: "Erase T (ptr_plus (begin_it v) off) v h
           = (Inr (Ptr b off), v\<lparr>size_m := ?n - 1\<rparr>, ?h2)"
    unfolding E0 using ml pb buf by (simp add: begin_it_def GetAddress_def)
  show "fst (Erase T (ptr_plus (begin_it v) off) v h) = Inr (ptr_plus (begin_it v) off)"
    using E buf by (simp add: begin_it_def GetAddress_def)
  show "fst (snd (Erase T (ptr_plus (begin_it v) off) v h)) = v\<lparr>size_m := size_m v - 1\<rparr>"
    using E sz by simp
  have rep: "replicate (?c - (?n - 1)) None = None # ?post"
    using off le by (simp add: Suc_diff_le replicate_Suc [symmetric] del: replicate_Suc) 
  have "represents (v\<lparr>size_m := ?n - 1\<rparr>) ?h2 (take off xs @ zs)"
    using off le cb buf b lz rep by (simp add: represents_def)
  then show "represents (fst (snd (Erase T (ptr_plus (begin_it v) off) v h)))
           (snd (snd (Erase T (ptr_plus (begin_it v) off) v h))) (take off xs @ zs)"
    using E by simp
qed

lemma Erase_throws:
  assumes r: "represents v h xs" and off: "off < length xs"
    and mc: "\<not> moves_complete T (xs ! off) (drop (Suc off) xs)"
  shows "\<exists>e. fst (Erase T (ptr_plus (begin_it v) off) v h) = Inl e"
    and "fst (snd (Erase T (ptr_plus (begin_it v) off) v h)) = v"
proof -
  let ?c = "capacity_m (data_m v)"
  let ?n = "length xs"
  let ?pre = "map Some (take off xs)"
  let ?ys = "drop (Suc off) xs"
  let ?post = "replicate (?c - ?n) None :: 'a option list"
  from Erase_steps [OF r off, of T] obtain b where
    blk1: "block_at h b = Some (?pre @ Some (xs ! off) # map Some ?ys @ ?post)"
    and E0: "Erase T (ptr_plus (begin_it v) off) v h =
       (case move_loop T (Ptr b (Suc off)) (Ptr b off) (length xs - Suc off) h of
          (Inl e, h1) \<Rightarrow>
            (if nothrow_move_assignable T \<and> is_exception e then (Inl Terminated, v, h1)
             else (Inl e, v, h1))
        | (Inr u, h1) \<Rightarrow>
            (case PopBack v h1 of
               (Inl e, this', h2) \<Rightarrow> (Inl e, this', h2)
             | (Inr u, this', h2) \<Rightarrow> (Inr (ptr_plus (begin_it this') off), this', h2)))"
    by blast
  have lp: "length ?pre = off" using off by simp
  have ly: "length ?ys = ?n - Suc off" by simp
  from move_loop_throws [OF blk1 lp mc] ly obtain n h1 where
    ml: "move_loop T (Ptr b (Suc off)) (Ptr b off) (?n - Suc off) h = (Inl (Thrown n), h1)"
    by (cases "move_loop T (Ptr b (Suc off)) (Ptr b off) (?n - Suc off) h") auto
  show "\<exists>e. fst (Erase T (ptr_plus (begin_it v) off) v h) = Inl e"
    unfolding E0 ml by simp
  show "fst (snd (Erase T (ptr_plus (begin_it v) off) v h)) = v"
    unfolding E0 ml by simp
qed

subsection \<open>Copying and moving between two blocks\<close>

lemma copy_assign_at_general:
  assumes "block_at h bs = Some (spre @ Some sv # spost)" "length spre = i"
    and "block_at h bd = Some (dpre @ Some dv # dpost)" "length dpre = j"
  shows "copy_assign_at T (Ptr bd j) (Ptr bs i) h
         = ((case fst (copy_assign T dv sv) of Some x \<Rightarrow> Inl (Thrown x) | None \<Rightarrow> Inr ()),
            set_block h bd (Some (dpre @ Some (snd (copy_assign T dv sv)) # dpost)))"
  using load_mid [OF assms(1,2)] load_mid [OF assms(3,4)] put_slot_mid [OF assms(3,4)]
  by (simp add: copy_assign_at_def andthen_def ret_def raise_def split: prod.splits option.splits)

lemma copy_loop_general:
  assumes "bs \<noteq> bd"
  shows "block_at h bs = Some (spre @ map Some ys @ spost) \<Longrightarrow> length spre = i \<Longrightarrow>
    block_at h bd = Some (dpre @ map Some zs @ dpost) \<Longrightarrow> length dpre = j \<Longrightarrow>
    length zs = length ys \<Longrightarrow>
    (if assigns_complete T zs ys
     then copy_loop T (Ptr bs i) (Ptr bd j) (length ys) h
            = (Inr (), set_block h bd (Some (dpre @ map Some (assigned T zs ys) @ dpost)))
     else \<exists>n. fst (copy_loop T (Ptr bs i) (Ptr bd j) (length ys) h) = Inl (Thrown n))"
proof (induction ys arbitrary: zs spre dpre i j h)
  case Nil
  then show ?case by (simp add: set_block_id assigns_complete_def assigned_def)
next
  case (Cons y ys)
  from Cons.prems(5) obtain z zs' where zs: "zs = z # zs'" and lz: "length zs' = length ys"
    by (cases zs) auto
  have bd: "bd < length (blocks h)" using Cons.prems(3) by (rule block_at_Some_less)
  let ?z' = "snd (copy_assign T z y)"
  let ?h1 = "set_block h bd (Some (dpre @ Some ?z' # map Some zs' @ dpost))"
  have st: "copy_assign_at T (Ptr bd j) (Ptr bs i) h
            = ((case fst (copy_assign T z y) of Some x \<Rightarrow> Inl (Thrown x) | None \<Rightarrow> Inr ()), ?h1)"
    using copy_assign_at_general [of h bs spre y "map Some ys @ spost" i bd dpre z
        "map Some zs' @ dpost" j T] Cons.prems zs
    by simp
  show ?case
  proof (cases "fst (copy_assign T z y)")
    case (Some n)
    then show ?thesis using st zs by (simp add: assigns_complete_def)
  next
    case None
    have s1: "block_at ?h1 bs = Some ((spre @ [Some y]) @ map Some ys @ spost)"
      using Cons.prems(1) assms by simp
    have d1: "block_at ?h1 bd = Some ((dpre @ [Some ?z']) @ map Some zs' @ dpost)"
      using bd by simp
    have IH: "(if assigns_complete T zs' ys
       then copy_loop T (Ptr bs (Suc i)) (Ptr bd (Suc j)) (length ys) ?h1
            = (Inr (), set_block ?h1 bd (Some ((dpre @ [Some ?z']) @ map Some (assigned T zs' ys) @ dpost)))
       else \<exists>n. fst (copy_loop T (Ptr bs (Suc i)) (Ptr bd (Suc j)) (length ys) ?h1) = Inl (Thrown n))"
      using Cons.prems(2,4) lz by (intro Cons.IH [OF s1 _ d1]) simp_all
    have ac: "assigns_complete T zs (y # ys) = assigns_complete T zs' ys"
      using None zs by (simp add: assigns_complete_def)
    have as: "assigned T zs (y # ys) = ?z' # assigned T zs' ys"
      using zs by (simp add: assigned_def)
    show ?thesis
    proof (cases "assigns_complete T zs' ys")
      case True
      then show ?thesis using IH st None ac as by simp
    next
      case False
      then show ?thesis using IH st None ac by simp
    qed
  qed
qed

lemma copy_construct_at_blocks:
  assumes "faithful_copy T"
    and "block_at h bs = Some (spre @ Some sv # spost)" "length spre = i"
    and "block_at h bd = Some (dpre @ y # dpost)" "length dpre = j"
  shows "copy_construct_at T (Ptr bd j) (Ptr bs i) h
         = (Inr (), set_block h bd (Some (dpre @ Some sv # dpost)))"
proof -
  have cc: "copy_ctor T sv = Inr sv"
    using assms(1) by (simp add: faithful_copy_def)
  show ?thesis
    using load_mid [OF assms(2,3)] construct_at_mid [OF assms(4,5)] cc
    by (simp add: copy_construct_at_def andthen_def)
qed

lemma uninitialized_copy_loop_blocks:
  assumes "faithful_copy T" "bs \<noteq> bd"
  shows "block_at h bs = Some (spre @ map Some ys @ spost) \<Longrightarrow> length spre = i + k \<Longrightarrow>
    block_at h bd = Some (dpre @ replicate (length ys) None @ dpost) \<Longrightarrow> length dpre = j + k \<Longrightarrow>
    uninitialized_copy_loop T (Ptr bs i) (Ptr bd j) k (length ys) h
      = (Inr (), set_block h bd (Some (dpre @ map Some ys @ dpost)))"
proof (induction ys arbitrary: spre dpre k h)
  case Nil
  then show ?case by (simp add: set_block_id)
next
  case (Cons y ys)
  have bd: "bd < length (blocks h)" using Cons.prems(3) by (rule block_at_Some_less)
  let ?h1 = "set_block h bd (Some (dpre @ Some y # replicate (length ys) None @ dpost))"
  have st: "copy_construct_at T (Ptr bd (j + k)) (Ptr bs (i + k)) h = (Inr (), ?h1)"
    using copy_construct_at_blocks [OF assms(1), of h bs spre y "map Some ys @ spost" "i + k" bd dpre
        None "replicate (length ys) None @ dpost" "j + k"] Cons.prems
    by simp
  have s1: "block_at ?h1 bs = Some ((spre @ [Some y]) @ map Some ys @ spost)"
    using Cons.prems(1) assms(2) by simp
  have d1: "block_at ?h1 bd = Some ((dpre @ [Some y]) @ replicate (length ys) None @ dpost)"
    using bd by simp
  have "uninitialized_copy_loop T (Ptr bs i) (Ptr bd j) (Suc k) (length ys) ?h1
        = (Inr (), set_block ?h1 bd (Some ((dpre @ [Some y]) @ map Some ys @ dpost)))"
    using Cons.prems(2,4) by (intro Cons.IH [OF s1 _ d1]) simp_all
  then show ?case using st by simp
qed

lemma copy_construct_at_general:
  assumes "block_at h bs = Some (spre @ Some sv # spost)" "length spre = i"
    and "block_at h bd = Some (dpre @ y # dpost)" "length dpre = j"
  shows "copy_construct_at T (Ptr bd j) (Ptr bs i) h
         = (case copy_ctor T sv of
              Inl x \<Rightarrow> (Inl (Thrown x), h)
            | Inr w \<Rightarrow> (Inr (), set_block h bd (Some (dpre @ Some w # dpost))))"
  using load_mid [OF assms(1,2)] construct_at_mid [OF assms(3,4)]
  by (simp add: copy_construct_at_def andthen_def raise_def split: sum.splits)

lemma uninitialized_copy_loop_general:
  assumes "bs \<noteq> bd"
  shows "block_at h bs = Some (spre @ map Some ys @ spost) \<Longrightarrow> length spre = i + k \<Longrightarrow>
    block_at h bd = Some (dpre @ replicate (length ys) None @ dpost) \<Longrightarrow> length dpre = j + k \<Longrightarrow>
    (if copies_complete T ys
     then uninitialized_copy_loop T (Ptr bs i) (Ptr bd j) k (length ys) h
            = (Inr (), set_block h bd (Some (dpre @ map Some (copied T ys) @ dpost)))
     else \<exists>e. fst (uninitialized_copy_loop T (Ptr bs i) (Ptr bd j) k (length ys) h) = Inl e)"
proof (induction ys arbitrary: spre dpre k h)
  case Nil
  then show ?case by (simp add: set_block_id copies_complete_def copied_def)
next
  case (Cons y ys)
  have bd: "bd < length (blocks h)" using Cons.prems(3) by (rule block_at_Some_less)
  have st: "copy_construct_at T (Ptr bd (j + k)) (Ptr bs (i + k)) h
            = (case copy_ctor T y of
                 Inl x \<Rightarrow> (Inl (Thrown x), h)
               | Inr w \<Rightarrow> (Inr (), set_block h bd (Some (dpre @ Some w # replicate (length ys) None @ dpost))))"
    using copy_construct_at_general [of h bs spre y "map Some ys @ spost" "i + k" bd dpre
        None "replicate (length ys) None @ dpost" "j + k" T] Cons.prems
    by simp
  show ?case
  proof (cases "copy_ctor T y")
    case (Inl x)
    then have nc: "\<not> copies_complete T (y # ys)" by (simp add: copies_complete_def)
    have "\<exists>e. fst (uninitialized_copy_loop T (Ptr bs i) (Ptr bd j) k (Suc (length ys)) h) = Inl e"
      using st Inl by (cases "destroy_n (Ptr bd j) k h") (auto split: sum.splits)
    then show ?thesis using nc by simp
  next
    case (Inr w)
    let ?h1 = "set_block h bd (Some (dpre @ Some w # replicate (length ys) None @ dpost))"
    have s1: "block_at ?h1 bs = Some ((spre @ [Some y]) @ map Some ys @ spost)"
      using Cons.prems(1) assms by simp
    have d1: "block_at ?h1 bd = Some ((dpre @ [Some w]) @ replicate (length ys) None @ dpost)"
      using bd by simp
    have IH: "(if copies_complete T ys
       then uninitialized_copy_loop T (Ptr bs i) (Ptr bd j) (Suc k) (length ys) ?h1
            = (Inr (), set_block ?h1 bd (Some ((dpre @ [Some w]) @ map Some (copied T ys) @ dpost)))
       else \<exists>e. fst (uninitialized_copy_loop T (Ptr bs i) (Ptr bd j) (Suc k) (length ys) ?h1) = Inl e)"
      using Cons.prems(2,4) by (intro Cons.IH [OF s1 _ d1]) simp_all
    have cc: "copies_complete T (y # ys) = copies_complete T ys"
      using Inr by (simp add: copies_complete_def)
    have cp: "copied T (y # ys) = w # copied T ys"
      using Inr by (simp add: copied_def)
    show ?thesis
    proof (cases "copies_complete T ys")
      case True
      then show ?thesis using IH st Inr cc cp by simp
    next
      case False
      then show ?thesis using IH st Inr cc by simp
    qed
  qed
qed

lemma faithful_assigns_complete:
  "faithful_copy_assign T \<Longrightarrow> length ds = length ss \<Longrightarrow> assigns_complete T ds ss"
  by (simp add: assigns_complete_def faithful_copy_assign_def list_all2_conv_all_nth)

lemma faithful_copies_complete: "faithful_copy T \<Longrightarrow> copies_complete T ss"
  by (simp add: copies_complete_def faithful_copy_def list_all_iff)

lemma assigned_length [simp]: "length (assigned T ds ss) = min (length ds) (length ss)"
  by (simp add: assigned_def)

lemma copied_length [simp]: "length (copied T ss) = length ss"
  by (simp add: copied_def)

lemma assigned_transfers:
  assumes "copy_transfers T" and "assigns_complete T ds ss"
  shows "assigned T ds ss = ss"
proof -
  have "list_all2 (\<lambda>d s. fst (copy_assign T d s) = None) ds ss"
    using assms(2) by (simp add: assigns_complete_def)
  then have "map2 (\<lambda>d s. snd (copy_assign T d s)) ds ss = ss"
    using assms(1) by (induction rule: list_all2_induct) (simp_all add: copy_transfers_def)
  then show ?thesis by (simp add: assigned_def)
qed

lemma copied_transfers: "copy_transfers T \<Longrightarrow> copies_complete T ss \<Longrightarrow> copied T ss = ss"
  unfolding copies_complete_def copied_def
  by (induction ss) (auto simp: copy_transfers_def split: sum.splits)

lemma move_construct_at_blocks:
  assumes "faithful_move T" "bs \<noteq> bd"
    and "block_at h bs = Some (spre @ Some sv # spost)" "length spre = i"
    and "block_at h bd = Some (dpre @ y # dpost)" "length dpre = j"
  shows "move_construct_at T (Ptr bd j) (Ptr bs i) h
         = (Inr (), set_block (set_block h bs (Some (spre @ Some (snd (move_ctor T sv)) # spost)))
                       bd (Some (dpre @ Some sv # dpost)))"
proof -
  obtain r sv' where mc: "move_ctor T sv = (r, sv')" by (cases "move_ctor T sv") auto
  have "fst (move_ctor T sv) = Inr sv" using assms(1) by (simp add: faithful_move_def)
  then have r: "r = Inr sv" using mc by simp
  let ?h1 = "set_block h bs (Some (spre @ Some sv' # spost))"
  have d1: "block_at ?h1 bd = Some (dpre @ y # dpost)" using assms(2,5) by simp
  show ?thesis
    using load_mid [OF assms(3,4)] put_slot_mid [OF assms(3,4)] construct_at_mid [OF d1 assms(6)] mc r
    by (simp add: move_construct_at_def andthen_def)
qed

lemma uninitialized_move_loop_blocks:
  assumes "faithful_move T" "bs \<noteq> bd"
  shows "block_at h bs = Some (spre @ map Some ys @ spost) \<Longrightarrow> length spre = i + k \<Longrightarrow>
    block_at h bd = Some (dpre @ replicate (length ys) None @ dpost) \<Longrightarrow> length dpre = j + k \<Longrightarrow>
    uninitialized_move_loop T (Ptr bs i) (Ptr bd j) k (length ys) h
      = (Inr (), set_block (set_block h bs
                    (Some (spre @ map Some (map (\<lambda>v. snd (move_ctor T v)) ys) @ spost)))
                  bd (Some (dpre @ map Some ys @ dpost)))"
proof (induction ys arbitrary: spre dpre k h)
  case Nil
  then show ?case by (simp add: set_block_id)
next
  case (Cons y ys)
  have bd: "bd < length (blocks h)" using Cons.prems(3) by (rule block_at_Some_less)
  have bs: "bs < length (blocks h)" using Cons.prems(1) by (rule block_at_Some_less)
  let ?y' = "snd (move_ctor T y)"
  let ?h1 = "set_block (set_block h bs (Some (spre @ Some ?y' # map Some ys @ spost)))
               bd (Some (dpre @ Some y # replicate (length ys) None @ dpost))"
  have st: "move_construct_at T (Ptr bd (j + k)) (Ptr bs (i + k)) h = (Inr (), ?h1)"
    using move_construct_at_blocks [OF assms, of h spre y "map Some ys @ spost" "i + k" dpre
        None "replicate (length ys) None @ dpost" "j + k"] Cons.prems
    by simp
  have s1: "block_at ?h1 bs = Some ((spre @ [Some ?y']) @ map Some ys @ spost)"
    using bs assms(2) by simp
  have d1: "block_at ?h1 bd = Some ((dpre @ [Some y]) @ replicate (length ys) None @ dpost)"
    using bd by simp
  have sw: "\<And>h x y. bs \<noteq> bd \<Longrightarrow> set_block (set_block h bd x) bs y = set_block (set_block h bs y) bd x"
    by (simp add: set_block_def list_update_swap)
  have "uninitialized_move_loop T (Ptr bs i) (Ptr bd j) (Suc k) (length ys) ?h1
        = (Inr (), set_block (set_block ?h1 bs
                    (Some ((spre @ [Some ?y']) @ map Some (map (\<lambda>v. snd (move_ctor T v)) ys) @ spost)))
                  bd (Some ((dpre @ [Some y]) @ map Some ys @ dpost)))"
    using Cons.prems(2,4) by (intro Cons.IH [OF s1 _ d1]) simp_all
  then show ?case using st assms(2) by (simp add: sw)
qed

subsection \<open>Copy assignment, step by step\<close>

lemma ptr_diff_plus_zero: "ptr_diff (ptr_plus p 0) p = Inr 0"
  by (cases p) simp_all

lemma std_copy_from_vector_general:
  assumes rb: "represents b h ys" and m: "m \<le> length ys"
    and dblk: "block_at h bt = Some (map Some zs @ dpost)" and lz: "length zs = m"
    and ne: "buffer_m (data_m b) \<noteq> Ptr bt 0"
  shows "(if assigns_complete T zs (take m ys)
     then std_copy T (GetAddress (data_m b)) (ptr_plus (GetAddress (data_m b)) m) (Ptr bt 0) h
         = (Inr (), set_block h bt (Some (map Some (assigned T zs (take m ys)) @ dpost)))
     else \<exists>n. fst (std_copy T (GetAddress (data_m b)) (ptr_plus (GetAddress (data_m b)) m)
                     (Ptr bt 0) h) = Inl (Thrown n))"
proof (cases "m = 0")
  case True
  then have "zs = []" using lz by simp
  then show ?thesis
    using True dblk
    by (simp add: std_copy_def andthen_def pure_step_def ptr_diff_plus_zero set_block_id
        assigns_complete_def assigned_def)
next
  case False
  then have yne: "ys \<noteq> []" using m by auto
  let ?c = "capacity_m (data_m b)"
  from rb yne obtain br where buf: "buffer_m (data_m b) = Ptr br 0"
    and sblk: "block_at h br = Some (map Some ys @ replicate (?c - length ys) None)"
    by (rule represents_nonempty_block)
  have d: "br \<noteq> bt" using ne buf by simp
  have s1: "block_at h br = Some ([] @ map Some (take m ys) @ (map Some (drop m ys) @ replicate (?c - length ys) None))"
    using sblk by (simp add: map_append [symmetric] del: map_append)
  have d1: "block_at h bt = Some ([] @ map Some zs @ dpost)" using dblk by simp
  have lt: "length (take m ys) = m" using m by simp
  have "(if assigns_complete T zs (take m ys)
     then copy_loop T (Ptr br 0) (Ptr bt 0) (length (take m ys)) h
            = (Inr (), set_block h bt (Some ([] @ map Some (assigned T zs (take m ys)) @ dpost)))
     else \<exists>n. fst (copy_loop T (Ptr br 0) (Ptr bt 0) (length (take m ys)) h) = Inl (Thrown n))"
    using lz lt by (intro copy_loop_general [OF d s1 _ d1]) simp_all
  then show ?thesis
    using buf lt
    by (simp add: std_copy_def andthen_def pure_step_def GetAddress_def split: if_splits)
qed

lemma uninitialized_copy_n_from_vector_general:
  assumes rb: "represents b h ys" and m: "m \<le> length ys"
    and dblk: "block_at h bt = Some (dpre @ replicate (length ys - m) None @ dpost)"
    and lz: "length dpre = m"
    and ne: "buffer_m (data_m b) \<noteq> Ptr bt 0"
  shows "(if copies_complete T (drop m ys)
     then uninitialized_copy_n T (ptr_plus (GetAddress (data_m b)) m) (int (length ys - m)) (Ptr bt m) h
         = (Inr (), set_block h bt (Some (dpre @ map Some (copied T (drop m ys)) @ dpost)))
     else \<exists>e. fst (uninitialized_copy_n T (ptr_plus (GetAddress (data_m b)) m)
                     (int (length ys - m)) (Ptr bt m) h) = Inl e)"
proof (cases "m = length ys")
  case True
  then show ?thesis
    using dblk by (simp add: uninitialized_copy_n_def set_block_id copies_complete_def copied_def)
next
  case False
  then have yne: "ys \<noteq> []" using m by auto
  let ?c = "capacity_m (data_m b)"
  from rb yne obtain br where buf: "buffer_m (data_m b) = Ptr br 0"
    and sblk: "block_at h br = Some (map Some ys @ replicate (?c - length ys) None)"
    by (rule represents_nonempty_block)
  have d: "br \<noteq> bt" using ne buf by simp
  have s1: "block_at h br = Some (map Some (take m ys) @ map Some (drop m ys) @ replicate (?c - length ys) None)"
    using sblk by (simp add: map_append [symmetric] del: map_append)
  have lt: "length (map Some (take m ys)) = m + 0" using m by simp
  have ld: "length (drop m ys) = length ys - m" by simp
  have d1: "block_at h bt = Some (dpre @ replicate (length (drop m ys)) None @ dpost)"
    using dblk by simp
  have lz': "length dpre = m + 0" using lz by simp
  have "(if copies_complete T (drop m ys)
     then uninitialized_copy_loop T (Ptr br m) (Ptr bt m) 0 (length (drop m ys)) h
            = (Inr (), set_block h bt (Some (dpre @ map Some (copied T (drop m ys)) @ dpost)))
     else \<exists>e. fst (uninitialized_copy_loop T (Ptr br m) (Ptr bt m) 0 (length (drop m ys)) h) = Inl e)"
    by (rule uninitialized_copy_loop_general [OF d s1 lt d1 lz'])
  then show ?thesis
    using buf by (simp add: uninitialized_copy_n_def GetAddress_def split: if_splits)
qed

lemma represents_frame:
  assumes "represents b h ys"
    and "\<And>c. buffer_m (data_m b) = Ptr c 0 \<Longrightarrow> block_at h' c = block_at h c"
  shows "represents b h' ys"
  using assms by (auto simp: represents_def split: ptr.splits)

lemma Vector_copy_assign_fits:
  fixes T :: "'a elem_ops"
  assumes ra: "represents a h xs" and rb: "represents b h ys"
    and fit: "length ys \<le> capacity_m (data_m a)"
    and dis: "disjoint_storage a b"
  defines "ok \<equiv> assigns_complete T (take (length ys) xs) (take (length xs) ys)
                  \<and> copies_complete T (drop (length xs) ys)"
    and "ws \<equiv> assigned T (take (length ys) xs) (take (length xs) ys)
                  @ copied T (drop (length xs) ys)"
  shows "(if ok
     then \<exists>h'. Vector_copy_assign T (Other b) a h = (Inr (), a\<lparr>size_m := length ys\<rparr>, h')
           \<and> represents (a\<lparr>size_m := length ys\<rparr>) h' ws \<and> represents b h' ys
     else \<exists>e. fst (Vector_copy_assign T (Other b) a h) = Inl e)"
proof (cases "buffer_m (data_m a)")
  case Null
  with ra have c0: "capacity_m (data_m a) = 0" and x0: "xs = []" and sa: "size_m a = 0"
    by (auto simp: represents_def)
  with fit have y0: "ys = []" by simp
  with rb have sb: "size_m b = 0" by (simp add: represents_def)
  have "Vector_copy_assign T (Other b) a h = (Inr (), a\<lparr>size_m := length ys\<rparr>, h)"
    using c0 sa sb y0
    by (simp add: Vector_copy_assign_def std_copy_def andthen_def pure_step_def ptr_diff_plus_zero
        uninitialized_copy_n_def)
  moreover have "represents (a\<lparr>size_m := length ys\<rparr>) h ws"
    using ra x0 y0 Null by (simp add: represents_def ws_def assigned_def copied_def)
  moreover have "ok" using x0 y0 by (simp add: ok_def assigns_complete_def copies_complete_def)
  ultimately show ?thesis using rb by auto
next
  case (Ptr bt i)
  let ?c = "capacity_m (data_m a)"
  let ?n = "length xs"
  let ?m = "length ys"
  from ra Ptr have i: "i = 0" and cpos: "0 < ?c" and cb: "?c < 18446744073709551616"
    and ablk: "block_at h bt = Some (map Some xs @ replicate (?c - ?n) None)"
    and sa: "size_m a = ?n" and le: "?n \<le> ?c"
    by (simp_all add: represents_def)
  from rb have sb: "size_m b = ?m" by (simp add: represents_def)
  have bt: "bt < length (blocks h)" using ablk by (rule block_at_Some_less)
  have ne: "buffer_m (data_m b) \<noteq> Ptr bt 0" using dis Ptr i by (auto simp: disjoint_storage_def)
  have nogrow: "\<not> size_m b > ?c" using fit sb by simp
  let ?body = "(if size_m a > size_m b
          then andthen (std_copy T (GetAddress (data_m b)) (ptr_plus (GetAddress (data_m b)) (size_m b))
                          (GetAddress (data_m a))) (\<lambda>u.
               destroy_n (ptr_plus (GetAddress (data_m a)) (size_m b)) (size_m a - size_m b))
          else andthen (std_copy T (GetAddress (data_m b)) (ptr_plus (GetAddress (data_m b)) (size_m a))
                          (GetAddress (data_m a))) (\<lambda>u.
               uninitialized_copy_n T (ptr_plus (GetAddress (data_m b)) (size_m a))
                 (int (size_m b - size_m a)) (ptr_plus (GetAddress (data_m a)) (size_m a)))) h"
  let ?h' = "set_block h bt (Some (map Some ws @ replicate (?c - ?m) None))"
  have lw: "length ws = ?m" by (simp add: ws_def)
  have body: "(if ok then ?body = (Inr (), ?h') else \<exists>e. fst ?body = Inl e)"
  proof (cases "?n > ?m")
    case True
    have ok: "ok = assigns_complete T (take ?m xs) ys"
      using True by (simp add: ok_def copies_complete_def)
    have ws: "ws = assigned T (take ?m xs) ys"
      using True by (simp add: ws_def copied_def)
    have d1: "block_at h bt = Some (map Some (take ?m xs) @ (map Some (drop ?m xs) @ replicate (?c - ?n) None))"
      using ablk by (simp add: map_append [symmetric] del: map_append)
    have lt: "length (take ?m xs) = ?m" using True by simp
    let ?h1 = "set_block h bt (Some (map Some ws @ (map Some (drop ?m xs) @ replicate (?c - ?n) None)))"
    have c1: "(if ok
       then std_copy T (GetAddress (data_m b)) (ptr_plus (GetAddress (data_m b)) ?m) (Ptr bt 0) h
              = (Inr (), ?h1)
       else \<exists>n. fst (std_copy T (GetAddress (data_m b)) (ptr_plus (GetAddress (data_m b)) ?m)
                     (Ptr bt 0) h) = Inl (Thrown n))"
      using std_copy_from_vector_general [OF rb _ d1 lt ne, of T]
      by (simp add: ok ws split: if_splits)
    show ?thesis
    proof (cases ok)
      case False
      then obtain n h1 where "std_copy T (GetAddress (data_m b)) (ptr_plus (GetAddress (data_m b)) ?m)
                     (Ptr bt 0) h = (Inl (Thrown n), h1)"
        using c1 by (cases "std_copy T (GetAddress (data_m b)) (ptr_plus (GetAddress (data_m b)) ?m)
                     (Ptr bt 0) h") auto
      then show ?thesis
        using False True sa sb Ptr i by (simp add: andthen_def GetAddress_def)
    next
      case okT: True
      have c1': "std_copy T (GetAddress (data_m b)) (ptr_plus (GetAddress (data_m b)) ?m) (Ptr bt 0) h
              = (Inr (), ?h1)"
        using c1 okT by simp
      have b1: "block_at ?h1 bt = Some (map Some ws @ map Some (drop ?m xs) @ replicate (?c - ?n) None)"
        using bt by simp
      have "destroy_n (Ptr bt ?m) (length (drop ?m xs)) ?h1
            = (Inr (), set_block ?h1 bt (Some (map Some ws @ replicate (length (drop ?m xs)) None @ replicate (?c - ?n) None)))"
        by (rule destroy_n_mid [OF b1]) (simp add: lw)
      moreover have "replicate (?n - ?m) None @ replicate (?c - ?n) None = (replicate (?c - ?m) None :: 'a option list)"
        using True le by (simp add: replicate_add [symmetric])
      ultimately have d2: "destroy_n (Ptr bt ?m) (?n - ?m) ?h1 = (Inr (), ?h')"
        by simp
      show ?thesis
        using okT True sa sb Ptr i c1' d2 by (simp add: andthen_def GetAddress_def)
    qed
  next
    case False
    then have nm: "?n \<le> ?m" by simp
    let ?as = "assigned T xs (take ?n ys)"
    have ok: "ok = (assigns_complete T xs (take ?n ys) \<and> copies_complete T (drop ?n ys))"
      using nm by (simp add: ok_def)
    have ws: "ws = ?as @ copied T (drop ?n ys)"
      using nm by (simp add: ws_def)
    have las: "length ?as = ?n" using nm by simp
    have d1: "block_at h bt = Some (map Some xs @ replicate (?c - ?n) None)"
      by (rule ablk)
    let ?h1 = "set_block h bt (Some (map Some ?as @ replicate (?c - ?n) None))"
    have c1: "(if assigns_complete T xs (take ?n ys)
       then std_copy T (GetAddress (data_m b)) (ptr_plus (GetAddress (data_m b)) ?n) (Ptr bt 0) h
              = (Inr (), ?h1)
       else \<exists>n. fst (std_copy T (GetAddress (data_m b)) (ptr_plus (GetAddress (data_m b)) ?n)
                     (Ptr bt 0) h) = Inl (Thrown n))"
      by (rule std_copy_from_vector_general [OF rb nm d1 _ ne]) simp
    show ?thesis
    proof (cases "assigns_complete T xs (take ?n ys)")
      case acF: False
      then obtain n h1 where "std_copy T (GetAddress (data_m b)) (ptr_plus (GetAddress (data_m b)) ?n)
                     (Ptr bt 0) h = (Inl (Thrown n), h1)"
        using c1 by (cases "std_copy T (GetAddress (data_m b)) (ptr_plus (GetAddress (data_m b)) ?n)
                     (Ptr bt 0) h") auto
      then show ?thesis
        using acF False ok sa sb Ptr i by (simp add: andthen_def GetAddress_def)
    next
      case acT: True
      have c1': "std_copy T (GetAddress (data_m b)) (ptr_plus (GetAddress (data_m b)) ?n) (Ptr bt 0) h
              = (Inr (), ?h1)"
        using c1 acT by simp
      have rep: "replicate (?c - ?n) None = replicate (?m - ?n) None @ (replicate (?c - ?m) None :: 'a option list)"
        using nm fit by (simp add: replicate_add [symmetric])
      have b1: "block_at ?h1 bt = Some (map Some ?as @ replicate (?m - ?n) None @ replicate (?c - ?m) None)"
        using bt rep by simp
      have rb1: "represents b ?h1 ys"
        using rb ne by (intro represents_frame [OF rb]) auto
      have u0: "(if copies_complete T (drop ?n ys)
         then uninitialized_copy_n T (ptr_plus (GetAddress (data_m b)) ?n) (int (?m - ?n)) (Ptr bt ?n) ?h1
            = (Inr (), set_block ?h1 bt (Some (map Some ?as @ map Some (copied T (drop ?n ys)) @ replicate (?c - ?m) None)))
         else \<exists>e. fst (uninitialized_copy_n T (ptr_plus (GetAddress (data_m b)) ?n)
                     (int (?m - ?n)) (Ptr bt ?n) ?h1) = Inl e)"
        using las by (intro uninitialized_copy_n_from_vector_general [OF rb1 nm b1 _ ne]) simp
      show ?thesis
      proof (cases "copies_complete T (drop ?n ys)")
        case ccF: False
        then obtain e h2 where "uninitialized_copy_n T (ptr_plus (GetAddress (data_m b)) ?n)
                     (int (?m - ?n)) (Ptr bt ?n) ?h1 = (Inl e, h2)"
          using u0 by (cases "uninitialized_copy_n T (ptr_plus (GetAddress (data_m b)) ?n)
                     (int (?m - ?n)) (Ptr bt ?n) ?h1") auto
        then show ?thesis
          using ccF False ok sa sb Ptr i c1' by (simp add: andthen_def GetAddress_def)
      next
        case ccT: True
        have u1: "uninitialized_copy_n T (ptr_plus (GetAddress (data_m b)) ?n) (int (?m - ?n)) (Ptr bt ?n) ?h1
            = (Inr (), ?h')"
          using u0 ccT by (simp add: ws)
        show ?thesis
          using acT ccT False ok sa sb Ptr i c1' u1 by (simp add: andthen_def GetAddress_def)
      qed
    qed
  qed
  show ?thesis
  proof (cases ok)
    case False
    then obtain e h1 where "?body = (Inl e, h1)" using body by (cases ?body) auto
    then have "fst (Vector_copy_assign T (Other b) a h) = Inl e"
      using nogrow by (simp add: Vector_copy_assign_def)
    then show ?thesis using False by auto
  next
    case True
    then have b: "?body = (Inr (), ?h')" using body by simp
    have E: "Vector_copy_assign T (Other b) a h = (Inr (), a\<lparr>size_m := ?m\<rparr>, ?h')"
      using nogrow b sb by (simp add: Vector_copy_assign_def)
    have r1: "represents (a\<lparr>size_m := ?m\<rparr>) ?h' ws"
      using fit cb cpos Ptr i bt lw by (simp add: represents_def)
    have r2: "represents b ?h' ys"
      using ne by (intro represents_frame [OF rb]) auto
    show ?thesis using True E r1 r2 by auto
  qed
qed

subsection \<open>Growing: EmplaceBack and PushBack, step by step\<close>

lemma to_int_small: "0 \<le> x \<Longrightarrow> x < 2147483648 \<Longrightarrow> to_int x = x"
  by (simp add: to_int_def)

lemma UninitializedConstructN_ok:
  assumes fr: "faithful_relocation T" and d: "bs \<noteq> bd"
    and sblk: "block_at h bs = Some (spre @ map Some ys @ spost)" and ls: "length spre = i"
    and dblk: "block_at h bd = Some (dpre @ replicate (length ys) None @ dpost)"
    and ld: "length dpre = j"
  shows "\<exists>h' ys'. UninitializedConstructN T (Ptr bs i) (int (length ys)) (Ptr bd j) h = (Inr (), h')
     \<and> length ys' = length ys
     \<and> block_at h' bs = Some (spre @ map Some ys' @ spost)
     \<and> block_at h' bd = Some (dpre @ map Some ys @ dpost)
     \<and> (\<forall>c. c \<noteq> bs \<and> c \<noteq> bd \<longrightarrow> block_at h' c = block_at h c)
     \<and> length (blocks h') = length (blocks h) \<and> avail h' = avail h"
proof (cases "nothrow_move_constructible T \<or> \<not> copy_constructible T")
  case True
  then have fm: "faithful_move T" using fr by (simp add: faithful_relocation_def)
  have bsl: "bs < length (blocks h)" using sblk by (rule block_at_Some_less)
  have bdl: "bd < length (blocks h)" using dblk by (rule block_at_Some_less)
  let ?ys' = "map (\<lambda>v. snd (move_ctor T v)) ys"
  let ?h' = "set_block (set_block h bs (Some (spre @ map Some ?ys' @ spost))) bd
               (Some (dpre @ map Some ys @ dpost))"
  have ls': "length spre = i + 0" and ld': "length dpre = j + 0" using ls ld by simp_all
  have "uninitialized_move_loop T (Ptr bs i) (Ptr bd j) 0 (length ys) h = (Inr (), ?h')"
    by (rule uninitialized_move_loop_blocks [OF fm d sblk ls' dblk ld'])
  then have "UninitializedConstructN T (Ptr bs i) (int (length ys)) (Ptr bd j) h = (Inr (), ?h')"
    using True by (simp add: UninitializedConstructN_def uninitialized_move_n_def)
  moreover have "block_at ?h' bs = Some (spre @ map Some ?ys' @ spost)"
    using d bsl by simp
  moreover have "block_at ?h' bd = Some (dpre @ map Some ys @ dpost)"
    using bdl by simp
  ultimately show ?thesis
    by (intro exI [of _ ?h'] exI [of _ ?ys']) simp
next
  case False
  then have fc: "faithful_copy T" using fr by (simp add: faithful_relocation_def)
  have bdl: "bd < length (blocks h)" using dblk by (rule block_at_Some_less)
  let ?h' = "set_block h bd (Some (dpre @ map Some ys @ dpost))"
  have ls': "length spre = i + 0" and ld': "length dpre = j + 0" using ls ld by simp_all
  have "uninitialized_copy_loop T (Ptr bs i) (Ptr bd j) 0 (length ys) h = (Inr (), ?h')"
    by (rule uninitialized_copy_loop_blocks [OF fc d sblk ls' dblk ld'])
  then have "UninitializedConstructN T (Ptr bs i) (int (length ys)) (Ptr bd j) h = (Inr (), ?h')"
    using False by (simp add: UninitializedConstructN_def uninitialized_copy_n_def)
  moreover have "block_at ?h' bs = Some (spre @ map Some ys @ spost)"
    using d sblk by simp
  moreover have "block_at ?h' bd = Some (dpre @ map Some ys @ dpost)"
    using bdl by simp
  ultimately show ?thesis
    by (intro exI [of _ ?h'] exI [of _ ys]) simp
qed

lemma UninitializedConstructN_zero: "n \<le> 0 \<Longrightarrow> UninitializedConstructN T p n q h = (Inr (), h)"
  by (simp add: UninitializedConstructN_def uninitialized_move_n_def uninitialized_copy_n_def)

lemma block_at_alloc:
  "block_at (h\<lparr>blocks := blocks h @ [s], avail := a\<rparr>) b
   = (if b = length (blocks h) then s else block_at h b)"
  by (simp add: block_at_def nth_append)

lemma operator_new_ok:
  "n \<le> avail h \<Longrightarrow>
   operator_new n h = (Inr (Ptr (length (blocks h)) 0),
      h\<lparr>blocks := blocks h @ [Some (replicate n None)], avail := avail h - n\<rparr>)"
  by (simp add: operator_new_def)

lemma operator_delete_block:
  "block_at h b = Some slots \<Longrightarrow>
   operator_delete (Ptr b 0) h = (Inr (), h\<lparr>blocks := (blocks h)[b := None], avail := avail h + length slots\<rparr>)"
  by (simp add: operator_delete_def)

lemma block_at_dealloc:
  "block_at (h\<lparr>blocks := (blocks h)[b := None], avail := a\<rparr>) c
   = (if c = b then None else block_at h c)"
  by (simp add: block_at_def)

lemma replicate_split_at:
  "n < c \<Longrightarrow> replicate c x = replicate n x @ x # replicate (c - n - 1) x"
proof -
  assume lt: "n < c"
  then have "c = n + Suc (c - n - 1)" by arith
  then have "replicate c x = replicate (n + Suc (c - n - 1)) x" by simp
  also have "\<dots> = replicate n x @ x # replicate (c - n - 1) x"
    by (simp only: replicate_add replicate_Suc)
  finally show ?thesis .
qed

lemma EmplaceBack_inplace_ok:
  assumes r: "represents v h xs" and lt: "length xs < capacity_m (data_m v)"
  shows "\<exists>h' b. buffer_m (data_m v) = Ptr b 0
     \<and> EmplaceBack T (Inr x) v h = (Inr (Ptr b (length xs)), v\<lparr>size_m := length xs + 1\<rparr>, h')
     \<and> represents (v\<lparr>size_m := length xs + 1\<rparr>) h' (xs @ [x])
     \<and> avail h' = avail h"
proof (cases "buffer_m (data_m v)")
  case Null
  with r lt show ?thesis by (simp add: represents_def)
next
  case (Ptr b i)
  let ?c = "capacity_m (data_m v)"
  let ?n = "length xs"
  from r Ptr have i: "i = 0" and cb: "?c < 18446744073709551616"
    and blk: "block_at h b = Some (map Some xs @ replicate (?c - ?n) None)"
    and sz: "size_m v = ?n"
    by (simp_all add: represents_def)
  have bl: "b < length (blocks h)" using blk by (rule block_at_Some_less)
  have rs: "replicate (?c - ?n) None = None # (replicate (?c - ?n - 1) None :: 'a option list)"
    using replicate_split_at [of 0 "?c - ?n" "None :: 'a option"] lt by simp
  have blk': "block_at h b = Some (map Some xs @ None # replicate (?c - ?n - 1) None)"
    using blk rs by simp
  let ?h' = "set_block h b (Some (map Some xs @ Some x # replicate (?c - ?n - 1) None))"
  have c: "construct_at (Ptr b ?n) x h = (Inr (), ?h')"
    by (rule construct_at_mid [OF blk']) simp
  have E: "EmplaceBack T (Inr x) v h = (Inr (Ptr b ?n), v\<lparr>size_m := ?n + 1\<rparr>, ?h')"
    using lt sz Ptr i c
    by (simp add: EmplaceBack_def Capacity_def RawMemory_plus_def andthen_def pure_step_def
        placement_new_def ret_def)
  have "represents (v\<lparr>size_m := ?n + 1\<rparr>) ?h' (xs @ [x])"
    using lt cb Ptr i bl by (simp add: represents_def)
  then show ?thesis using E Ptr i by auto
qed

lemma EmplaceBack_grow_ok:
  assumes r: "represents v h xs" and full: "length xs = capacity_m (data_m v)"
    and fr: "faithful_relocation T" and small: "length xs < 2147483648"
    and mem: "grown (length xs) \<le> avail h"
  shows "\<exists>h'. EmplaceBack T (Inr x) v h
        = (Inr (Ptr (length (blocks h)) (length xs)),
           \<lparr>data_m = \<lparr>buffer_m = Ptr (length (blocks h)) 0, capacity_m = grown (length xs)\<rparr>,
             size_m = length xs + 1\<rparr>, h')
     \<and> represents \<lparr>data_m = \<lparr>buffer_m = Ptr (length (blocks h)) 0, capacity_m = grown (length xs)\<rparr>,
             size_m = length xs + 1\<rparr> h' (xs @ [x])
     \<and> avail h' + grown (length xs) = avail h + length xs"
proof -
  let ?n = "length xs"
  let ?c' = "grown ?n"
  let ?bd = "length (blocks h)"
  let ?nd = "\<lparr>buffer_m = Ptr ?bd 0, capacity_m = ?c'\<rparr>"
  let ?v' = "\<lparr>data_m = ?nd, size_m = ?n + 1\<rparr>"
  from r have sz: "size_m v = ?n" by (simp add: represents_def)
  have c'pos: "?c' \<noteq> 0" and nlt: "?n < ?c'" by (simp_all add: grown_def)
  have c'eq: "(if size_m v = 0 then 1 else to_size_t (int (size_m v) * 2)) = ?c'"
    using small sz by (simp add: grown_def to_size_t_def nat_mult_distrib)
  let ?h0 = "h\<lparr>blocks := blocks h @ [Some (replicate ?c' None)], avail := avail h - ?c'\<rparr>"
  have alloc: "RawMemory_ctor ?c' h = (Inr ?nd, ?h0)"
    using mem c'pos by (simp add: RawMemory_ctor_def Allocate_def operator_new_ok)
  have plus: "RawMemory_plus ?nd ?n = Inr (Ptr ?bd ?n)"
    using nlt by (simp add: RawMemory_plus_def)
  have b0: "block_at ?h0 ?bd = Some (replicate ?n None @ None # replicate (?c' - ?n - 1) None)"
    using replicate_split_at [OF nlt, of "None :: 'a option"] by (simp add: block_at_alloc)
  let ?dpost = "Some x # (replicate (?c' - ?n - 1) None :: 'a option list)"
  let ?h1 = "set_block ?h0 ?bd (Some (replicate ?n None @ ?dpost))"
  have pn: "placement_new (Ptr ?bd ?n) (Inr x) ?h0 = (Inr (), ?h1)"
    using construct_at_mid [OF b0, of ?n x] by (simp add: placement_new_def)
  have l0: "length (blocks ?h0) = Suc ?bd" by simp
  have b1: "block_at ?h1 ?bd = Some ([] @ replicate ?n None @ ?dpost)"
    by (simp add: l0)
  have old1: "\<And>c. c < ?bd \<Longrightarrow> block_at ?h1 c = block_at h c"
    by (simp add: block_at_alloc)
  have av1: "avail ?h1 = avail h - ?c'" by simp
  have rep_final: "\<And>h'. block_at h' ?bd = Some (map Some xs @ ?dpost) \<Longrightarrow> represents ?v' h' (xs @ [x])"
    using nlt small by (simp add: represents_def grown_def)
  show ?thesis
  proof (cases "buffer_m (data_m v)")
    case Null
    with r have n0: "?n = 0" by (auto simp: represents_def)
    then have x0: "xs = []" by simp
    have body: "andthen (pure_step (RawMemory_plus ?nd (size_m v))) (\<lambda>result.
                   andthen (placement_new result (Inr x)) (\<lambda>u.
                   andthen (UninitializedConstructN T (GetAddress (data_m v))
                        (to_int (int (size_m v))) (GetAddress ?nd)) (\<lambda>u.
                   andthen (destroy_n (GetAddress (data_m v)) (size_m v)) (\<lambda>u.
                   ret result)))) ?h0 = (Inr (Ptr ?bd ?n), ?h1)"
      using plus pn sz n0
      by (simp add: andthen_def pure_step_def ret_def UninitializedConstructN_zero to_int_def)
    have dt: "RawMemory_dtor (data_m v) ?h1 = (Inr (), ?h1)"
      using Null by (simp add: RawMemory_dtor_def Deallocate_def operator_delete_def)
    have sw: "RawMemory_Swap (data_m v) ?nd = (?nd, data_m v)"
      by (simp add: RawMemory_Swap_def)
    have E: "EmplaceBack T (Inr x) v h = (Inr (Ptr ?bd ?n), ?v', ?h1)"
      using full sz c'eq alloc body sw dt
      by (simp add: EmplaceBack_def Capacity_def)
    have "represents ?v' ?h1 (xs @ [x])"
      using b1 x0 by (intro rep_final) simp
    moreover have "avail ?h1 + ?c' = avail h + ?n" using mem x0 by simp
    ultimately show ?thesis using E by blast
  next
    case (Ptr bs i)
    from r Ptr have i: "i = 0"
      and blk: "block_at h bs = Some (map Some xs @ replicate (capacity_m (data_m v) - ?n) None)"
      by (simp_all add: represents_def)
    have bsl: "bs < ?bd" using blk by (rule block_at_Some_less)
    have d: "bs \<noteq> ?bd" using bsl by simp
    have s1: "block_at ?h1 bs = Some ([] @ map Some xs @ [])"
      using blk full old1 [OF bsl] by simp
    from UninitializedConstructN_ok [OF fr d s1 _ b1, of 0 0]
    obtain h2 ys' where u: "UninitializedConstructN T (Ptr bs 0) (int ?n) (Ptr ?bd 0) ?h1 = (Inr (), h2)"
      and ly: "length ys' = ?n"
      and s2: "block_at h2 bs = Some ([] @ map Some ys' @ [])"
      and d2: "block_at h2 ?bd = Some ([] @ map Some xs @ ?dpost)"
      and av2: "avail h2 = avail ?h1"
      by auto
    have bsl2: "bs < length (blocks h2)" using s2 by (rule block_at_Some_less)
    let ?h3 = "set_block h2 bs (Some ([] @ replicate (length ys') None @ []))"
    have dn: "destroy_n (Ptr bs 0) (length ys') h2 = (Inr (), ?h3)"
      by (rule destroy_n_mid [OF s2]) simp
    have ti: "to_int (int ?n) = int ?n" using small by (intro to_int_small) simp_all
    have body: "andthen (pure_step (RawMemory_plus ?nd (size_m v))) (\<lambda>result.
                   andthen (placement_new result (Inr x)) (\<lambda>u.
                   andthen (UninitializedConstructN T (GetAddress (data_m v))
                        (to_int (int (size_m v))) (GetAddress ?nd)) (\<lambda>u.
                   andthen (destroy_n (GetAddress (data_m v)) (size_m v)) (\<lambda>u.
                   ret result)))) ?h0 = (Inr (Ptr ?bd ?n), ?h3)"
      using plus pn sz ti u dn ly Ptr i
      by (simp add: andthen_def pure_step_def ret_def GetAddress_def)
    have s3: "block_at ?h3 bs = Some (replicate ?n None)"
      using bsl2 ly by simp
    let ?h4 = "?h3\<lparr>blocks := (blocks ?h3)[bs := None], avail := avail ?h3 + length (replicate ?n (None :: 'a option))\<rparr>"
    have dt: "RawMemory_dtor (data_m v) ?h3 = (Inr (), ?h4)"
      using Ptr i operator_delete_block [OF s3] by (simp add: RawMemory_dtor_def Deallocate_def)
    have sw: "RawMemory_Swap (data_m v) ?nd = (?nd, data_m v)"
      by (simp add: RawMemory_Swap_def)
    have E: "EmplaceBack T (Inr x) v h = (Inr (Ptr ?bd ?n), ?v', ?h4)"
      using full sz c'eq alloc body sw dt
      by (simp add: EmplaceBack_def Capacity_def)
    have d4: "block_at ?h4 ?bd = Some (map Some xs @ ?dpost)"
      using d d2 by (simp add: block_at_dealloc)
    have "represents ?v' ?h4 (xs @ [x])"
      using d4 by (rule rep_final)
    moreover have "avail ?h4 + ?c' = avail h + ?n" using mem av2 by simp
    ultimately show ?thesis using E by blast
  qed
qed

lemma EmplaceBack_ok:
  assumes r: "represents v h xs" and fr: "faithful_relocation T"
    and small: "length xs < 2147483648"
    and mem: "length xs = Capacity v \<longrightarrow> grown (length xs) \<le> avail h"
  shows "\<exists>v' h'. EmplaceBack T (Inr x) v h = (Inr (ptr_plus (begin_it v') (length xs)), v', h')
     \<and> represents v' h' (xs @ [x])
     \<and> Capacity v' = (if length xs = Capacity v then grown (length xs) else Capacity v)
     \<and> avail h' + Capacity v' = avail h + Capacity v"
proof (cases "length xs = Capacity v")
  case True
  then have full: "length xs = capacity_m (data_m v)" by (simp add: Capacity_def)
  from mem True have m: "grown (length xs) \<le> avail h" by simp
  from EmplaceBack_grow_ok [OF r full fr small m, of x] True
  show ?thesis
    by (auto simp: Capacity_def begin_it_def GetAddress_def)
next
  case False
  from r have "length xs \<le> capacity_m (data_m v)" by (simp add: represents_def)
  with False have lt: "length xs < capacity_m (data_m v)" by (simp add: Capacity_def)
  from EmplaceBack_inplace_ok [OF r lt, of T x] False
  show ?thesis
    by (auto simp: Capacity_def begin_it_def GetAddress_def)
qed

lemma PushBack_ok:
  assumes r: "represents v h xs" and fc: "faithful_copy T" and fr: "faithful_relocation T"
    and small: "length xs < 2147483648"
    and mem: "length xs = Capacity v \<longrightarrow> grown (length xs) \<le> avail h"
  shows "\<exists>v' h'. PushBack T x v h = (Inr (), v', h')
     \<and> represents v' h' (xs @ [x])
     \<and> Capacity v' = (if length xs = Capacity v then grown (length xs) else Capacity v)
     \<and> avail h' + Capacity v' = avail h + Capacity v"
proof -
  have c: "copy_ctor T x = Inr x" using fc by (simp add: faithful_copy_def)
  from EmplaceBack_ok [OF r fr small mem, of x] show ?thesis
    by (auto simp: PushBack_def discard_def c)
qed

lemma PushBack_all_snoc:
  "PushBack_all T (xs @ [x]) v h =
     (case PushBack_all T xs v h of
        (Inl e, v', h') \<Rightarrow> (Inl e, v', h')
      | (Inr u, v', h') \<Rightarrow>
          (case PushBack T x v' h' of
             (Inl e, v'', h'') \<Rightarrow> (Inl e, v'', h'')
           | (Inr u, v'', h'') \<Rightarrow> (Inr (), v'', h'')))"
  by (induction xs arbitrary: v h) (auto split: prod.splits sum.splits)

lemma progression_step:
  "k \<le> progression k \<Longrightarrow>
   progression (Suc k) = (if k = progression k then grown k else progression k)"
  by (auto simp: grown_def)

lemma PushBack_all_ok:
  assumes fc: "faithful_copy T" and fr: "faithful_relocation T"
  shows "length xs \<le> 2147483648 \<Longrightarrow> 3 * length xs \<le> avail h \<Longrightarrow>
    \<exists>v' h'. PushBack_all T xs Vector_default h = (Inr (), v', h')
     \<and> represents v' h' xs \<and> Capacity v' = progression (length xs)
     \<and> avail h' + Capacity v' = avail h"
proof (induction xs rule: rev_induct)
  case Nil
  show ?case
    by (simp add: represents_def Vector_default_def RawMemory_default_def Capacity_def)
next
  case (snoc x xs)
  from snoc.prems have "length xs \<le> 2147483648" "3 * length xs \<le> avail h" by simp_all
  from snoc.IH [OF this] obtain v' h' where
    E: "PushBack_all T xs Vector_default h = (Inr (), v', h')"
    and r: "represents v' h' xs" and c: "Capacity v' = progression (length xs)"
    and a: "avail h' + Capacity v' = avail h"
    by blast
  have small: "length xs < 2147483648" using snoc.prems(1) by simp
  have le: "length xs \<le> Capacity v'" using r by (simp add: represents_def Capacity_def)
  have mem: "length xs = Capacity v' \<longrightarrow> grown (length xs) \<le> avail h'"
    using a snoc.prems(2) by (auto simp: grown_def)
  from PushBack_ok [OF r fc fr small mem, of x] obtain v'' h'' where
    P: "PushBack T x v' h' = (Inr (), v'', h'')"
    and r': "represents v'' h'' (xs @ [x])"
    and c': "Capacity v'' = (if length xs = Capacity v' then grown (length xs) else Capacity v')"
    and a': "avail h'' + Capacity v'' = avail h' + Capacity v'"
    by blast
  have "progression (Suc (length xs)) = (if length xs = progression (length xs) then grown (length xs) else progression (length xs))"
    using le c by (intro progression_step) simp
  then have c'': "Capacity v'' = progression (length (xs @ [x]))"
    using c c' by simp
  have "PushBack_all T (xs @ [x]) Vector_default h = (Inr (), v'', h'')"
    by (simp add: PushBack_all_snoc E P)
  then show ?case using r' c'' a a' by auto
qed

lemma progression_bounds:
  "0 < k \<Longrightarrow> \<exists>e. progression k = 2 ^ e \<and> k \<le> 2 ^ e \<and> 2 ^ e < 2 * k"
proof (induction k)
  case 0
  then show ?case by simp
next
  case (Suc k)
  show ?case
  proof (cases "k = 0")
    case True
    then show ?thesis by (auto intro: exI [of _ 0])
  next
    case False
    with Suc.IH obtain e where e: "progression k = 2 ^ e" "k \<le> 2 ^ e" "(2::nat) ^ e < 2 * k" by auto
    show ?thesis
    proof (cases "Suc k > progression k")
      case True
      then have "k = 2 ^ e" using e by simp
      then have "progression (Suc k) = 2 ^ Suc e \<and> Suc k \<le> 2 ^ Suc e \<and> (2::nat) ^ Suc e < 2 * Suc k"
        using e True False by (simp add: max_def)
      then show ?thesis by blast
    next
      case False
      then have "progression (Suc k) = 2 ^ e \<and> Suc k \<le> 2 ^ e \<and> (2::nat) ^ e < 2 * Suc k"
        using e by simp
      then show ?thesis by blast
    qed
  qed
qed

lemma to_int_wraps:
  "2147483648 \<le> x \<Longrightarrow> x < 4294967296 \<Longrightarrow> to_int x = x - 4294967296"
proof -
  assume a: "2147483648 \<le> x" "x < 4294967296"
  have "x + 2147483648 = x - 2147483648 + 4294967296" by arith
  then have "(x + 2147483648) mod 4294967296 = (x - 2147483648 + 4294967296) mod 4294967296"
    by (rule arg_cong)
  also have "\<dots> = (x - 2147483648) mod 4294967296" by (simp only: mod_add_self2)
  also have "\<dots> = x - 2147483648" using a by simp
  finally show ?thesis by (simp add: to_int_def)
qed

lemma EmplaceBack_grow_wrapped:
  assumes r: "represents v h xs" and full: "length xs = capacity_m (data_m v)"
    and big: "2147483648 \<le> length xs" "length xs < 4294967296"
    and mem: "2 * length xs \<le> avail h"
  shows "\<exists>v' h'. EmplaceBack T (Inr x) v h = (Inr (Ptr (length (blocks h)) (length xs)), v', h')
     \<and> size_m v' = length xs + 1 \<and> begin_it v' = Ptr (length (blocks h)) 0
     \<and> block_at h' (length (blocks h))
          = Some (replicate (length xs) None @ Some x # replicate (length xs - 1) None)"
proof -
  let ?n = "length xs"
  let ?c' = "2 * ?n"
  let ?bd = "length (blocks h)"
  let ?nd = "\<lparr>buffer_m = Ptr ?bd 0, capacity_m = ?c'\<rparr>"
  let ?v' = "\<lparr>data_m = ?nd, size_m = ?n + 1\<rparr>"
  from r have sz: "size_m v = ?n" by (simp add: represents_def)
  have npos: "0 < ?n" and nlt: "?n < ?c'" using big by linarith+
  have xne: "xs \<noteq> []" using npos by auto
  have snz: "size_m v \<noteq> 0" using npos sz by simp
  have c'eq: "(if size_m v = 0 then 1 else to_size_t (int (size_m v) * 2)) = ?c'"
    using big snz sz by (simp add: to_size_t_def nat_mult_distrib)
  let ?h0 = "h\<lparr>blocks := blocks h @ [Some (replicate ?c' None)], avail := avail h - ?c'\<rparr>"
  have alloc: "RawMemory_ctor ?c' h = (Inr ?nd, ?h0)"
    using mem xne by (simp add: RawMemory_ctor_def Allocate_def operator_new_ok)
  have plus: "RawMemory_plus ?nd ?n = Inr (Ptr ?bd ?n)"
    by (simp add: RawMemory_plus_def)
  have cn: "?c' - ?n - 1 = ?n - 1" by simp
  have b0: "block_at ?h0 ?bd = Some (replicate ?n None @ None # replicate (?n - 1) None)"
    using replicate_split_at [OF nlt, of "None :: 'a option"] cn by (simp add: block_at_alloc)
  let ?dblk = "replicate ?n None @ Some x # (replicate (?n - 1) None :: 'a option list)"
  let ?h1 = "set_block ?h0 ?bd (Some ?dblk)"
  have pn: "placement_new (Ptr ?bd ?n) (Inr x) ?h0 = (Inr (), ?h1)"
    using construct_at_mid [OF b0, of ?n x] by (simp add: placement_new_def)
  have l0: "length (blocks ?h0) = Suc ?bd" by simp
  have b1: "block_at ?h1 ?bd = Some ?dblk" by (simp add: l0)
  from r xne obtain bs where buf: "buffer_m (data_m v) = Ptr bs 0"
    and blk: "block_at h bs = Some (map Some xs @ replicate (capacity_m (data_m v) - ?n) None)"
    and bsl: "bs < ?bd"
    by (rule represents_nonempty_block)
  have d: "bs \<noteq> ?bd" using bsl by simp
  have s1: "block_at ?h1 bs = Some ([] @ map Some xs @ [])"
    using blk full bsl d by (simp add: block_at_alloc)
  have neg: "to_int (int ?n) \<le> 0"
    using to_int_wraps [of "int ?n"] big by simp
  have u: "UninitializedConstructN T (Ptr bs 0) (to_int (int ?n)) (Ptr ?bd 0) ?h1 = (Inr (), ?h1)"
    using neg by (rule UninitializedConstructN_zero)
  let ?h3 = "set_block ?h1 bs (Some ([] @ replicate ?n None @ []))"
  have dn: "destroy_n (Ptr bs 0) ?n ?h1 = (Inr (), ?h3)"
    by (rule destroy_n_mid [OF s1]) simp
  have body: "andthen (pure_step (RawMemory_plus ?nd (size_m v))) (\<lambda>result.
                 andthen (placement_new result (Inr x)) (\<lambda>u.
                 andthen (UninitializedConstructN T (GetAddress (data_m v))
                      (to_int (int (size_m v))) (GetAddress ?nd)) (\<lambda>u.
                 andthen (destroy_n (GetAddress (data_m v)) (size_m v)) (\<lambda>u.
                 ret result)))) ?h0 = (Inr (Ptr ?bd ?n), ?h3)"
    using plus pn sz u dn buf
    by (simp add: andthen_def pure_step_def ret_def GetAddress_def)
  have bsl1: "bs < length (blocks ?h1)" using bsl by simp
  have s3: "block_at ?h3 bs = Some (replicate ?n None)"
    using bsl1 by simp
  let ?h4 = "?h3\<lparr>blocks := (blocks ?h3)[bs := None], avail := avail ?h3 + length (replicate ?n (None :: 'a option))\<rparr>"
  have dt: "RawMemory_dtor (data_m v) ?h3 = (Inr (), ?h4)"
    using buf operator_delete_block [OF s3] by (simp add: RawMemory_dtor_def Deallocate_def)
  have sw: "RawMemory_Swap (data_m v) ?nd = (?nd, data_m v)"
    by (simp add: RawMemory_Swap_def)
  have E: "EmplaceBack T (Inr x) v h = (Inr (Ptr ?bd ?n), ?v', ?h4)"
    using full sz c'eq alloc body sw dt
    by (simp add: EmplaceBack_def Capacity_def)
  have d4: "block_at ?h4 ?bd = Some ?dblk"
    using d b1 by (simp add: block_at_dealloc)
  show ?thesis using E d4 by (simp add: begin_it_def GetAddress_def)
qed

lemma progression_power: "progression (2 ^ e) = 2 ^ e"
proof -
  have "0 < (2::nat) ^ e" by simp
  from progression_bounds [OF this] obtain f where
    f: "progression (2 ^ e) = 2 ^ f" "(2::nat) ^ e \<le> 2 ^ f" "(2::nat) ^ f < 2 * 2 ^ e" by blast
  from f(2) have "e \<le> f" by simp
  moreover from f(3) have "(2::nat) ^ f < 2 ^ Suc e" by simp
  then have "f < Suc e" using power_less_imp_less_exp [of 2 f "Suc e"] by simp
  ultimately have "f = e" by simp
  then show ?thesis using f(1) by simp
qed

lemma load_raw:
  "block_at h b = Some (replicate n None @ rest) \<Longrightarrow> 0 < n \<Longrightarrow>
   load (Ptr b 0) h = (Inl UndefinedBehaviour, h)"
  by (cases n) (simp_all add: load_def)

subsection \<open>Emplace, step by step\<close>

lemma move_construct_at_adjacent_up:
  assumes fm: "faithful_move T"
    and blk: "block_at h b = Some (pre @ Some sv # y # post)" and lp: "length pre = i"
  shows "move_construct_at T (Ptr b (Suc i)) (Ptr b i) h
         = (Inr (), set_block h b (Some (pre @ Some (snd (move_ctor T sv)) # Some sv # post)))"
proof -
  obtain r sv' where mc: "move_ctor T sv = (r, sv')" by (cases "move_ctor T sv") auto
  have "fst (move_ctor T sv) = Inr sv" using fm by (simp add: faithful_move_def)
  then have r: "r = Inr sv" using mc by simp
  have bl: "b < length (blocks h)" using blk by (rule block_at_Some_less)
  let ?h1 = "set_block h b (Some (pre @ Some sv' # y # post))"
  have l: "load (Ptr b i) h = (Inr sv, h)" by (rule load_mid [OF blk lp])
  have p: "put_slot (Ptr b i) (Some sv') h = (Inr (), ?h1)" by (rule put_slot_mid [OF blk lp])
  have b1: "block_at ?h1 b = Some ((pre @ [Some sv']) @ y # post)" using bl by simp
  have c: "construct_at (Ptr b (Suc i)) sv ?h1
           = (Inr (), set_block ?h1 b (Some ((pre @ [Some sv']) @ Some sv # post)))"
    by (rule construct_at_mid [OF b1]) (simp add: lp)
  show ?thesis
    using l p c mc r by (simp add: move_construct_at_def andthen_def)
qed

lemma move_assign_at_adjacent_up:
  assumes fma: "faithful_move_assign T"
    and blk: "block_at h b = Some (pre @ Some sv # Some dv # post)" and lp: "length pre = i"
  shows "move_assign_at T (Ptr b (Suc i)) (Ptr b i) h
         = (Inr (), set_block h b (Some (pre @ Some (snd (snd (move_assign T dv sv))) # Some sv # post)))"
proof -
  obtain ex dv' sv' where ma: "move_assign T dv sv = (ex, dv', sv')"
    by (cases "move_assign T dv sv") auto
  have "fst (move_assign T dv sv) = None \<and> fst (snd (move_assign T dv sv)) = sv"
    using fma by (simp add: faithful_move_assign_def)
  then have e: "ex = None" "dv' = sv" using ma by simp_all
  have bl: "b < length (blocks h)" using blk by (rule block_at_Some_less)
  have l1: "load (Ptr b i) h = (Inr sv, h)" by (rule load_mid [OF blk lp])
  have blk': "block_at h b = Some ((pre @ [Some sv]) @ Some dv # post)" using blk by simp
  have l2: "load (Ptr b (Suc i)) h = (Inr dv, h)" by (rule load_mid [OF blk']) (simp add: lp)
  let ?h1 = "set_block h b (Some (pre @ Some sv' # Some dv # post))"
  have p1: "put_slot (Ptr b i) (Some sv') h = (Inr (), ?h1)" by (rule put_slot_mid [OF blk lp])
  have b1: "block_at ?h1 b = Some ((pre @ [Some sv']) @ Some dv # post)" using bl by simp
  have p2: "put_slot (Ptr b (Suc i)) (Some sv) ?h1
            = (Inr (), set_block ?h1 b (Some ((pre @ [Some sv']) @ Some sv # post)))"
    by (rule put_slot_mid [OF b1]) (simp add: lp)
  show ?thesis
    using l1 l2 p1 p2 ma e by (simp add: move_assign_at_def andthen_def ret_def)
qed

lemma move_backward_loop_shift:
  assumes fma: "faithful_move_assign T"
  shows "block_at h b = Some (pre @ map Some ys @ Some z # post) \<Longrightarrow> length pre = i \<Longrightarrow>
    \<exists>w. move_backward_loop T (Ptr b i) (Ptr b (Suc i)) (length ys) h
      = (Inr (), set_block h b (Some (pre @ Some w # map Some ys @ post)))"
proof (induction ys arbitrary: z post h rule: rev_induct)
  case Nil
  then show ?case by (intro exI [of _ z]) (simp add: set_block_id)
next
  case (snoc y ys)
  have bl: "b < length (blocks h)" using snoc.prems(1) by (rule block_at_Some_less)
  let ?y' = "snd (snd (move_assign T z y))"
  let ?h1 = "set_block h b (Some ((pre @ map Some ys) @ Some ?y' # Some y # post))"
  have blk: "block_at h b = Some ((pre @ map Some ys) @ Some y # Some z # post)"
    using snoc.prems(1) by simp
  have st: "move_assign_at T (Ptr b (Suc (i + length ys))) (Ptr b (i + length ys)) h = (Inr (), ?h1)"
    by (rule move_assign_at_adjacent_up [OF fma blk]) (simp add: snoc.prems(2))
  have b1: "block_at ?h1 b = Some (pre @ map Some ys @ Some ?y' # (Some y # post))"
    using bl by simp
  from snoc.IH [OF b1 snoc.prems(2)] obtain w where
    "move_backward_loop T (Ptr b i) (Ptr b (Suc i)) (length ys) ?h1
      = (Inr (), set_block ?h1 b (Some (pre @ Some w # map Some ys @ Some y # post)))"
    by blast
  then have "move_backward_loop T (Ptr b i) (Ptr b (Suc i)) (length (ys @ [y])) h
      = (Inr (), set_block h b (Some (pre @ Some w # map Some (ys @ [y]) @ post)))"
    using st by simp
  then show ?case by blast
qed

lemma move_assign_from_mid:
  assumes fma: "faithful_move_assign T"
    and blk: "block_at h b = Some (pre @ Some w # post)" and lp: "length pre = i"
  shows "move_assign_from T (Ptr b i) x h = (Inr (), set_block h b (Some (pre @ Some x # post)))"
proof -
  obtain ex dv' t' where ma: "move_assign T w x = (ex, dv', t')"
    by (cases "move_assign T w x") auto
  have "fst (move_assign T w x) = None \<and> fst (snd (move_assign T w x)) = x"
    using fma by (simp add: faithful_move_assign_def)
  then have e: "ex = None" "dv' = x" using ma by simp_all
  show ?thesis
    using load_mid [OF blk lp] put_slot_mid [OF blk lp] ma e
    by (simp add: move_assign_from_def andthen_def ret_def)
qed

lemma Emplace_inplace_middle:
  assumes fm: "faithful_move T" and fma: "faithful_move_assign T"
    and blk: "block_at h b = Some (map Some xs @ None # post)"
    and off: "off < length xs"
    and buf: "buffer_m (data_m v) = Ptr b 0" and sz: "size_m v = length xs"
  shows "Emplace_inplace T (Inr x) (Ptr b off) (int off) v h
         = (Inr (), set_block h b (Some (map Some (take off xs @ x # drop off xs) @ post)))"
proof -
  let ?n = "length xs"
  have xne: "xs \<noteq> []" using off by auto
  let ?l = "last xs"
  let ?bl = "butlast xs"
  have xs: "xs = ?bl @ [?l]" using xne by simp
  have lbl: "length ?bl = ?n - 1" by simp
  have npos: "0 < ?n" using xne by simp
  have e: "end_it v = Ptr b ?n" and bg: "begin_it v = Ptr b 0"
    using buf sz by (simp_all add: end_it_def begin_it_def GetAddress_def)
  have pne: "Ptr b off \<noteq> end_it v" using off e by simp
  have bk: "ptr_add (end_it v) (- 1) = Inr (Ptr b (?n - 1))"
    using npos e by (simp add: nat_diff_distrib')
  have blk0: "block_at h b = Some (map Some ?bl @ Some ?l # None # post)"
    using blk xs by (metis append.assoc append_Cons append_Nil list.simps(8,9) map_append)
  have bl: "b < length (blocks h)" using blk by (rule block_at_Some_less)
  let ?l' = "snd (move_ctor T ?l)"
  let ?h1 = "set_block h b (Some (map Some ?bl @ Some ?l' # Some ?l # post))"
  have mc: "move_construct_at T (Ptr b (Suc (?n - 1))) (Ptr b (?n - 1)) h = (Inr (), ?h1)"
    by (rule move_construct_at_adjacent_up [OF fm blk0]) simp
  have sn: "Suc (?n - 1) = ?n" using npos by simp
  have mc': "move_construct_at T (Ptr b ?n) (Ptr b (?n - 1)) h = (Inr (), ?h1)"
    using mc unfolding sn .
  have p: "ptr_add (begin_it v) (int off) = Inr (Ptr b off)" using bg by simp
  let ?pre = "map Some (take off xs)"
  let ?ys = "drop off ?bl"
  have offle: "off \<le> ?n - 1" using off by simp
  have tk: "take off ?bl = take off xs" using off by (rule take_butlast)
  have spl: "map Some ?bl = ?pre @ map Some ?ys"
    using tk by (metis append_take_drop_id map_append)
  have b1: "block_at ?h1 b = Some (?pre @ map Some ?ys @ Some ?l' # (Some ?l # post))"
    using bl spl by simp
  have lp: "length ?pre = off" using off by simp
  from move_backward_loop_shift [OF fma b1 lp] obtain w where
    mb: "move_backward_loop T (Ptr b off) (Ptr b (Suc off)) (length ?ys) ?h1
      = (Inr (), set_block ?h1 b (Some (?pre @ Some w # map Some ?ys @ Some ?l # post)))"
    by blast
  let ?h2 = "set_block h b (Some (?pre @ Some w # map Some ?ys @ Some ?l # post))"
  have ly: "length ?ys = ?n - Suc off" by simp
  have diff: "ptr_diff (Ptr b (?n - Suc 0)) (Ptr b off) = Inr (int (?n - Suc off))"
    using off by (simp add: of_nat_diff)
  have dfirst: "ptr_add (Ptr b ?n) (- int (?n - Suc off)) = Inr (Ptr b (Suc off))"
    using off by (simp add: of_nat_diff)
  have mb': "move_backward_loop T (Ptr b off) (Ptr b (Suc off)) (?n - Suc off) ?h1 = (Inr (), ?h2)"
    using mb bl by (simp add: ly)
  have smb: "std_move_backward T (Ptr b off) (Ptr b (?n - Suc 0)) (end_it v) ?h1 = (Inr (), ?h2)"
    unfolding std_move_backward_def andthen_def pure_step_def e diff
    by (simp add: dfirst mb' del: ptr_add.simps)
  have b2: "block_at ?h2 b = Some (?pre @ Some w # (map Some ?ys @ Some ?l # post))"
    using bl by simp
  have maf: "move_assign_from T (Ptr b off) x ?h2
             = (Inr (), set_block ?h2 b (Some (?pre @ Some x # (map Some ?ys @ Some ?l # post))))"
    by (rule move_assign_from_mid [OF fma b2 lp])
  have dr: "drop off xs = ?ys @ [?l]"
    using offle xne by (metis append_butlast_last_id drop_append length_butlast diff_is_0_eq drop0 drop_0 append.simps(1) drop_all order_refl)
  have fin: "?pre @ Some x # (map Some ?ys @ Some ?l # post)
             = map Some (take off xs @ x # drop off xs) @ post"
    by (simp add: dr)
  have "Emplace_inplace T (Inr x) (Ptr b off) (int off) v h
        = (Inr (), set_block ?h2 b (Some (?pre @ Some x # (map Some ?ys @ Some ?l # post))))"
    using pne bk mc' p smb maf e bl
    by (simp add: Emplace_inplace_def andthen_def pure_step_def del: ptr_add.simps)
  then show ?thesis using fin by simp
qed

lemma to_size_t_small: "0 \<le> x \<Longrightarrow> x < 18446744073709551616 \<Longrightarrow> to_size_t x = nat x"
  by (simp add: to_size_t_def)

lemma Emplace_grow_ok:
  assumes r: "represents v h xs" and full: "length xs = capacity_m (data_m v)"
    and off: "off \<le> length xs"
    and fr: "faithful_relocation T" and small: "length xs < 2147483648"
    and mem: "grown (length xs) \<le> avail h"
  shows "\<exists>h'. Emplace T (Inr x) (ptr_plus (begin_it v) off) v h
        = (Inr (Ptr (length (blocks h)) off),
           \<lparr>data_m = \<lparr>buffer_m = Ptr (length (blocks h)) 0, capacity_m = grown (length xs)\<rparr>,
             size_m = length xs + 1\<rparr>, h')
     \<and> represents \<lparr>data_m = \<lparr>buffer_m = Ptr (length (blocks h)) 0, capacity_m = grown (length xs)\<rparr>,
             size_m = length xs + 1\<rparr> h' (take off xs @ x # drop off xs)"
proof -
  let ?n = "length xs"
  let ?c' = "grown ?n"
  let ?bd = "length (blocks h)"
  let ?nd = "\<lparr>buffer_m = Ptr ?bd 0, capacity_m = ?c'\<rparr>"
  let ?v' = "\<lparr>data_m = ?nd, size_m = ?n + 1\<rparr>"
  let ?pos = "ptr_plus (begin_it v) off"
  from r have sz: "size_m v = ?n" by (simp add: represents_def)
  have c'pos: "?c' \<noteq> 0" and nlt: "?n < ?c'" by (simp_all add: grown_def)
  have offlt: "off < ?c'" using off nlt by simp
  have c'eq: "(if size_m v = 0 then 1 else to_size_t (int (size_m v) * 2)) = ?c'"
    using small sz by (simp add: grown_def to_size_t_def nat_mult_distrib)
  let ?h0 = "h\<lparr>blocks := blocks h @ [Some (replicate ?c' None)], avail := avail h - ?c'\<rparr>"
  have alloc: "RawMemory_ctor ?c' h = (Inr ?nd, ?h0)"
    using mem c'pos by (simp add: RawMemory_ctor_def Allocate_def operator_new_ok)
  have asrt: "ptr_le (begin_it v) ?pos \<and> ptr_le ?pos (end_it v)"
    using off sz by (cases "buffer_m (data_m v)") (simp_all add: begin_it_def end_it_def GetAddress_def)
  have pd: "ptr_diff ?pos (begin_it v) = Inr (if begin_it v = Null then 0 else int off)"
    by (cases "buffer_m (data_m v)") (simp_all add: begin_it_def GetAddress_def)
  have off0: "begin_it v = Null \<Longrightarrow> off = 0"
    using r off by (auto simp: represents_def begin_it_def GetAddress_def)
  have pd': "ptr_diff ?pos (begin_it v) = Inr (int off)"
    using pd off0 by auto
  have ti: "to_int (int off) = int off" using off small by (intro to_int_small) simp_all
  have b0: "block_at ?h0 ?bd = Some (replicate off None @ None # replicate (?c' - off - 1) None)"
    using replicate_split_at [OF offlt, of "None :: 'a option"] by (simp add: block_at_alloc)
  let ?tail = "replicate (?c' - ?n - 1) None :: 'a option list"
  have rtail: "replicate (?c' - off - 1) None = replicate (?n - off) None @ ?tail"
    using off nlt by (simp add: replicate_add [symmetric])
  let ?h1 = "set_block ?h0 ?bd (Some (replicate off None @ Some x # replicate (?n - off) None @ ?tail))"
  have pn: "placement_new (Ptr ?bd off) (Inr x) ?h0 = (Inr (), ?h1)"
    using construct_at_mid [OF b0, of off x] rtail by (simp add: placement_new_def)
  have l0: "length (blocks ?h0) = Suc ?bd" by simp
  have b1: "block_at ?h1 ?bd = Some ([] @ replicate off None @ (Some x # replicate (?n - off) None @ ?tail))"
    by (simp add: l0)
  have cnt2: "to_int (int (to_size_t (int ?n - int off))) = int (?n - off)"
  proof -
    have "to_size_t (int ?n - int off) = ?n - off"
      using off small by (simp add: to_size_t_def nat_diff_distrib')
    moreover have "to_int (int (?n - off)) = int (?n - off)"
      using small by (intro to_int_small) simp_all
    ultimately show ?thesis by simp
  qed
  have rep_final: "\<And>h'. block_at h' ?bd
        = Some (map Some (take off xs) @ Some x # map Some (drop off xs) @ ?tail)
      \<Longrightarrow> represents ?v' h' (take off xs @ x # drop off xs)"
    using nlt small off by (simp add: represents_def grown_def)
  have sw: "RawMemory_Swap (data_m v) ?nd = (?nd, data_m v)"
    by (simp add: RawMemory_Swap_def)
  have ret: "ptr_add (begin_it ?v') (int off) = Inr (Ptr ?bd off)"
    by (simp add: begin_it_def GetAddress_def)
  show ?thesis
  proof (cases "buffer_m (data_m v)")
    case Null
    with r have n0: "?n = 0" by (auto simp: represents_def)
    then have x0: "xs = []" and o0: "off = 0" using off by simp_all
    have body: "andthen (pure_step (ptr_add (GetAddress ?nd) (int off))) (\<lambda>p.
                 andthen (placement_new p (Inr x)) (\<lambda>u.
                 andthen (UninitializedConstructN T (GetAddress (data_m v)) (int off) (GetAddress ?nd)) (\<lambda>u.
                 andthen (pure_step (ptr_add (GetAddress (data_m v)) (int off))) (\<lambda>src.
                 andthen (pure_step (ptr_add (GetAddress ?nd) (int off + 1))) (\<lambda>dst.
                 andthen (UninitializedConstructN T src
                      (to_int (int (to_size_t (int (size_m v) - int off)))) dst) (\<lambda>u.
                 destroy_n (GetAddress (data_m v)) (size_m v))))))) ?h0 = (Inr (), ?h1)"
      using pn sz n0 o0 Null cnt2
      by (simp add: andthen_def pure_step_def GetAddress_def UninitializedConstructN_zero)
    have dt: "RawMemory_dtor (data_m v) ?h1 = (Inr (), ?h1)"
      using Null by (simp add: RawMemory_dtor_def Deallocate_def operator_delete_def)
    have E: "Emplace T (Inr x) ?pos v h = (Inr (Ptr ?bd off), ?v', ?h1)"
      using asrt pd' ti full sz c'eq alloc body sw dt
      by (simp add: Emplace_def Let_def begin_it_def end_it_def GetAddress_def)
    have "represents ?v' ?h1 (take off xs @ x # drop off xs)"
      using b1 x0 o0 by (intro rep_final) simp
    then show ?thesis using E by blast
  next
    case (Ptr bs i)
    from r Ptr have i: "i = 0"
      and blk: "block_at h bs = Some (map Some xs @ replicate (capacity_m (data_m v) - ?n) None)"
      by (simp_all add: represents_def)
    have bsl: "bs < ?bd" using blk by (rule block_at_Some_less)
    have d: "bs \<noteq> ?bd" using bsl by simp
    let ?xa = "take off xs" and ?xb = "drop off xs"
    have la: "length ?xa = off" and lb: "length ?xb = ?n - off" using off by simp_all
    have s1: "block_at ?h1 bs = Some ([] @ map Some ?xa @ map Some ?xb)"
      using blk full bsl d by (simp add: block_at_alloc map_append [symmetric] del: map_append)
    have b1': "block_at ?h1 ?bd = Some ([] @ replicate (length ?xa) None @ (Some x # replicate (?n - off) None @ ?tail))"
      using b1 la by simp
    from UninitializedConstructN_ok [OF fr d s1 _ b1', of 0 0]
    obtain h2 ya where u1: "UninitializedConstructN T (Ptr bs 0) (int (length ?xa)) (Ptr ?bd 0) ?h1 = (Inr (), h2)"
      and lya: "length ya = length ?xa"
      and s2: "block_at h2 bs = Some ([] @ map Some ya @ map Some ?xb)"
      and d2: "block_at h2 ?bd = Some ([] @ map Some ?xa @ (Some x # replicate (?n - off) None @ ?tail))"
      by auto
    have s2': "block_at h2 bs = Some (map Some ya @ map Some ?xb @ [])" using s2 by simp
    have d2': "block_at h2 ?bd = Some ((map Some ?xa @ [Some x]) @ replicate (length ?xb) None @ ?tail)"
      using d2 lb by simp
    from UninitializedConstructN_ok [OF fr d s2' _ d2', of off "Suc off"] lya la
    obtain h3 yb where u2: "UninitializedConstructN T (Ptr bs off) (int (length ?xb)) (Ptr ?bd (Suc off)) h2 = (Inr (), h3)"
      and lyb: "length yb = length ?xb"
      and s3: "block_at h3 bs = Some (map Some ya @ map Some yb @ [])"
      and d3: "block_at h3 ?bd = Some ((map Some ?xa @ [Some x]) @ map Some ?xb @ ?tail)"
      and av3: "avail h3 = avail h2"
      by auto
    have s3': "block_at h3 bs = Some ([] @ map Some (ya @ yb) @ [])" using s3 by simp
    have lyab: "length (ya @ yb) = ?n" using lya lyb la lb off by simp
    have bsl3: "bs < length (blocks h3)" using s3 by (rule block_at_Some_less)
    let ?h4 = "set_block h3 bs (Some ([] @ replicate (length (ya @ yb)) None @ []))"
    have dn: "destroy_n (Ptr bs 0) (length (ya @ yb)) h3 = (Inr (), ?h4)"
      by (rule destroy_n_mid [OF s3']) simp
    have dn': "destroy_n (Ptr bs 0) ?n h3 = (Inr (), ?h4)" using dn lyab by simp
    have u1': "UninitializedConstructN T (Ptr bs 0) (int off) (Ptr ?bd 0) ?h1 = (Inr (), h2)"
      using u1 la by simp
    have u2': "UninitializedConstructN T (Ptr bs off) (int (?n - off)) (Ptr ?bd (Suc off)) h2 = (Inr (), h3)"
      using u2 lb by simp
    have pa1: "ptr_add (Ptr ?bd 0) (int off) = Inr (Ptr ?bd off)" by simp
    have pa2: "ptr_add (Ptr bs 0) (int off) = Inr (Ptr bs off)" by simp
    have pa3: "ptr_add (Ptr ?bd 0) (int off + 1) = Inr (Ptr ?bd (Suc off))" by (simp add: nat_add_distrib)
    have body: "andthen (pure_step (ptr_add (GetAddress ?nd) (int off))) (\<lambda>p.
                 andthen (placement_new p (Inr x)) (\<lambda>u.
                 andthen (UninitializedConstructN T (GetAddress (data_m v)) (int off) (GetAddress ?nd)) (\<lambda>u.
                 andthen (pure_step (ptr_add (GetAddress (data_m v)) (int off))) (\<lambda>src.
                 andthen (pure_step (ptr_add (GetAddress ?nd) (int off + 1))) (\<lambda>dst.
                 andthen (UninitializedConstructN T src
                      (to_int (int (to_size_t (int (size_m v) - int off)))) dst) (\<lambda>u.
                 destroy_n (GetAddress (data_m v)) (size_m v))))))) ?h0 = (Inr (), ?h4)"
      unfolding andthen_def pure_step_def GetAddress_def sz cnt2
      using Ptr i pn u1' u2' dn' lyab by (simp add: pa1 pa2 pa3 del: ptr_add.simps)
    have s4: "block_at ?h4 bs = Some (replicate ?n None)"
      using bsl3 lyab by simp
    let ?h5 = "?h4\<lparr>blocks := (blocks ?h4)[bs := None], avail := avail ?h4 + length (replicate ?n (None :: 'a option))\<rparr>"
    have dt: "RawMemory_dtor (data_m v) ?h4 = (Inr (), ?h5)"
      using Ptr i operator_delete_block [OF s4] by (simp add: RawMemory_dtor_def Deallocate_def)
    have E: "Emplace T (Inr x) ?pos v h = (Inr (Ptr ?bd off), ?v', ?h5)"
      using asrt pd' ti full sz c'eq alloc body sw dt
      by (simp add: Emplace_def Let_def begin_it_def end_it_def GetAddress_def)
    have d5: "block_at ?h5 ?bd = Some (map Some ?xa @ Some x # map Some ?xb @ ?tail)"
      using d d3 by (simp add: block_at_dealloc)
    have "represents ?v' ?h5 (take off xs @ x # drop off xs)"
      using d5 by (rule rep_final)
    then show ?thesis using E by blast
  qed
qed

lemma Emplace_inplace_ok:
  assumes r: "represents v h xs" and lt: "length xs < capacity_m (data_m v)"
    and off: "off \<le> length xs"
    and fm: "faithful_move T" and fma: "faithful_move_assign T"
    and small: "length xs < 2147483648"
  shows "\<exists>h' b. buffer_m (data_m v) = Ptr b 0
     \<and> Emplace T (Inr x) (ptr_plus (begin_it v) off) v h
         = (Inr (Ptr b off), v\<lparr>size_m := length xs + 1\<rparr>, h')
     \<and> represents (v\<lparr>size_m := length xs + 1\<rparr>) h' (take off xs @ x # drop off xs)"
proof (cases "buffer_m (data_m v)")
  case Null
  with r lt show ?thesis by (simp add: represents_def)
next
  case (Ptr b i)
  let ?c = "capacity_m (data_m v)"
  let ?n = "length xs"
  from r Ptr have i: "i = 0" and cb: "?c < 18446744073709551616"
    and blk: "block_at h b = Some (map Some xs @ replicate (?c - ?n) None)"
    and sz: "size_m v = ?n"
    by (simp_all add: represents_def)
  have buf: "buffer_m (data_m v) = Ptr b 0" using Ptr i by simp
  have bl: "b < length (blocks h)" using blk by (rule block_at_Some_less)
  let ?post = "replicate (?c - ?n - 1) None :: 'a option list"
  have rs: "replicate (?c - ?n) None = None # ?post"
    using replicate_split_at [of 0 "?c - ?n" "None :: 'a option"] lt by simp
  have blk': "block_at h b = Some (map Some xs @ None # ?post)"
    using blk rs by simp
  let ?ys = "take off xs @ x # drop off xs"
  let ?h' = "set_block h b (Some (map Some ?ys @ ?post))"
  have ti: "to_int (int off) = int off" using off small by (intro to_int_small) simp_all
  have nogrow: "\<not> ?c \<le> size_m v" using lt sz by simp
  have body: "Emplace_inplace T (Inr x) (Ptr b off) (int off) v h = (Inr (), ?h')"
  proof (cases "off = ?n")
    case True
    have e: "end_it v = Ptr b ?n" using buf sz by (simp add: end_it_def GetAddress_def)
    have "construct_at (Ptr b ?n) x h = (Inr (), set_block h b (Some (map Some xs @ Some x # ?post)))"
      by (rule construct_at_mid [OF blk']) simp
    then show ?thesis using True e by (simp add: Emplace_inplace_def placement_new_def)
  next
    case False
    then have "off < ?n" using off by simp
    then show ?thesis by (rule Emplace_inplace_middle [OF fm fma blk' _ buf sz])
  qed
  have E: "Emplace T (Inr x) (ptr_plus (begin_it v) off) v h
           = (Inr (Ptr b off), v\<lparr>size_m := ?n + 1\<rparr>, ?h')"
    using off sz buf ti nogrow body
    by (simp add: Emplace_def Let_def begin_it_def end_it_def GetAddress_def)
  have "represents (v\<lparr>size_m := ?n + 1\<rparr>) ?h' ?ys"
    using lt cb buf bl off by (simp add: represents_def)
  then show ?thesis using E buf by blast
qed

lemma Emplace_ok:
  assumes r: "represents v h xs" and off: "off \<le> length xs"
    and fr: "faithful_relocation T" and fm: "faithful_move T" and fma: "faithful_move_assign T"
    and small: "length xs < 2147483648"
    and mem: "length xs = Capacity v \<longrightarrow> grown (length xs) \<le> avail h"
  shows "\<exists>v' h'. Emplace T (Inr x) (ptr_plus (begin_it v) off) v h
        = (Inr (ptr_plus (begin_it v') off), v', h')
     \<and> represents v' h' (take off xs @ x # drop off xs)
     \<and> Size v' = Size v + 1"
proof (cases "length xs = Capacity v")
  case True
  then have full: "length xs = capacity_m (data_m v)" by (simp add: Capacity_def)
  from mem True have m: "grown (length xs) \<le> avail h" by simp
  from r have sz: "size_m v = length xs" by (simp add: represents_def)
  from Emplace_grow_ok [OF r full off fr small m, of x] sz
  show ?thesis
    by (auto simp: Size_def begin_it_def GetAddress_def)
next
  case False
  from r have "length xs \<le> capacity_m (data_m v)" and sz: "size_m v = length xs"
    by (simp_all add: represents_def)
  with False have lt: "length xs < capacity_m (data_m v)" by (simp add: Capacity_def)
  from Emplace_inplace_ok [OF r lt off fm fma small, of x] sz
  show ?thesis
    by (auto simp: Size_def begin_it_def GetAddress_def)
qed

lemma load_represented:
  assumes r: "represents v h xs" and i: "i < length xs"
  shows "load (ptr_plus (begin_it v) i) h = (Inr (xs ! i), h)"
proof -
  have ne: "xs \<noteq> []" using i by auto
  from r ne obtain b where buf: "buffer_m (data_m v) = Ptr b 0"
    and blk: "block_at h b = Some (map Some xs @ replicate (capacity_m (data_m v) - length xs) None)"
    by (rule represents_nonempty_block)
  have "map Some xs = map Some (take i xs) @ Some (xs ! i) # map Some (drop (Suc i) xs)"
    using i by (metis Cons_nth_drop_Suc append_take_drop_id list.simps(9) map_append)
  then have blk': "block_at h b = Some (map Some (take i xs) @ Some (xs ! i)
        # (map Some (drop (Suc i) xs) @ replicate (capacity_m (data_m v) - length xs) None))"
    using blk by simp
  have "load (Ptr b i) h = (Inr (xs ! i), h)"
    by (rule load_mid [OF blk']) (use i in simp)
  then show ?thesis using buf by (simp add: begin_it_def GetAddress_def)
qed

lemma load_raw_mid:
  "block_at h b = Some (pre @ None # post) \<Longrightarrow> length pre = i \<Longrightarrow>
   load (Ptr b i) h = (Inl UndefinedBehaviour, h)"
  by (auto simp: load_def nth_append)

lemma Emplace_grow_wrapped:
  assumes r: "represents v h xs" and full: "length xs = capacity_m (data_m v)"
    and big: "2147483648 \<le> length xs" "length xs < 4294967296"
    and mem: "2 * length xs \<le> avail h"
  shows "\<exists>v' h'. Emplace T (Inr x) (begin_it v) v h = (Inr (Ptr (length (blocks h)) 0), v', h')
     \<and> size_m v' = length xs + 1 \<and> begin_it v' = Ptr (length (blocks h)) 0
     \<and> block_at h' (length (blocks h)) = Some (Some x # replicate (2 * length xs - 1) None)"
proof -
  let ?n = "length xs"
  let ?c' = "2 * ?n"
  let ?bd = "length (blocks h)"
  let ?nd = "\<lparr>buffer_m = Ptr ?bd 0, capacity_m = ?c'\<rparr>"
  let ?v' = "\<lparr>data_m = ?nd, size_m = ?n + 1\<rparr>"
  from r have sz: "size_m v = ?n" by (simp add: represents_def)
  have npos: "0 < ?n" using big by linarith
  have xne: "xs \<noteq> []" using npos by auto
  have snz: "size_m v \<noteq> 0" using npos sz by simp
  have c'eq: "(if size_m v = 0 then 1 else to_size_t (int (size_m v) * 2)) = ?c'"
    using big snz sz by (simp add: to_size_t_def nat_mult_distrib)
  let ?h0 = "h\<lparr>blocks := blocks h @ [Some (replicate ?c' None)], avail := avail h - ?c'\<rparr>"
  have alloc: "RawMemory_ctor ?c' h = (Inr ?nd, ?h0)"
    using mem xne by (simp add: RawMemory_ctor_def Allocate_def operator_new_ok)
  have c'gt: "0 < ?c'" using npos by simp
  have b0: "block_at ?h0 ?bd = Some ([] @ None # replicate (?c' - 1) None)"
    using replicate_split_at [OF c'gt, of "None :: 'a option"] by (simp add: block_at_alloc)
  let ?dblk = "Some x # (replicate (?c' - 1) None :: 'a option list)"
  let ?h1 = "set_block ?h0 ?bd (Some ?dblk)"
  have pn: "placement_new (Ptr ?bd 0) (Inr x) ?h0 = (Inr (), ?h1)"
    using construct_at_mid [OF b0, of 0 x] by (simp add: placement_new_def)
  have l0: "length (blocks ?h0) = Suc ?bd" by simp
  have b1: "block_at ?h1 ?bd = Some ?dblk" by (simp add: l0)
  from r xne obtain bs where buf: "buffer_m (data_m v) = Ptr bs 0"
    and blk: "block_at h bs = Some (map Some xs @ replicate (capacity_m (data_m v) - ?n) None)"
    and bsl: "bs < ?bd"
    by (rule represents_nonempty_block)
  have d: "bs \<noteq> ?bd" using bsl by simp
  have s1: "block_at ?h1 bs = Some ([] @ map Some xs @ [])"
    using blk full bsl d by (simp add: block_at_alloc)
  have ts: "to_size_t (int ?n - 0) = ?n" using big by (simp add: to_size_t_def)
  have neg: "to_int (int (to_size_t (int ?n - 0))) \<le> 0"
    unfolding ts using to_int_wraps [of "int ?n"] big by simp
  have u1: "UninitializedConstructN T (Ptr bs 0) 0 (Ptr ?bd 0) ?h1 = (Inr (), ?h1)"
    by (rule UninitializedConstructN_zero) simp
  have u2: "UninitializedConstructN T (Ptr bs 0) (to_int (int (to_size_t (int ?n - 0)))) (Ptr ?bd 1) ?h1
            = (Inr (), ?h1)"
    using neg by (rule UninitializedConstructN_zero)
  let ?h3 = "set_block ?h1 bs (Some ([] @ replicate ?n None @ []))"
  have dn: "destroy_n (Ptr bs 0) ?n ?h1 = (Inr (), ?h3)"
    by (rule destroy_n_mid [OF s1]) simp
  have t0: "to_int 0 = 0" by (simp add: to_int_def)
  have body: "andthen (pure_step (ptr_add (GetAddress ?nd) 0)) (\<lambda>p.
                 andthen (placement_new p (Inr x)) (\<lambda>u.
                 andthen (UninitializedConstructN T (GetAddress (data_m v)) 0 (GetAddress ?nd)) (\<lambda>u.
                 andthen (pure_step (ptr_add (GetAddress (data_m v)) 0)) (\<lambda>src.
                 andthen (pure_step (ptr_add (GetAddress ?nd) (0 + 1))) (\<lambda>dst.
                 andthen (UninitializedConstructN T src
                      (to_int (int (to_size_t (int (size_m v) - 0)))) dst) (\<lambda>u.
                 destroy_n (GetAddress (data_m v)) (size_m v))))))) ?h0 = (Inr (), ?h3)"
    unfolding andthen_def pure_step_def GetAddress_def sz
    using buf pn u1 u2 dn by simp
  have bsl1: "bs < length (blocks ?h1)" using bsl by simp
  have s3: "block_at ?h3 bs = Some (replicate ?n None)"
    using bsl1 by simp
  let ?h4 = "?h3\<lparr>blocks := (blocks ?h3)[bs := None], avail := avail ?h3 + length (replicate ?n (None :: 'a option))\<rparr>"
  have dt: "RawMemory_dtor (data_m v) ?h3 = (Inr (), ?h4)"
    using buf operator_delete_block [OF s3] by (simp add: RawMemory_dtor_def Deallocate_def)
  have sw: "RawMemory_Swap (data_m v) ?nd = (?nd, data_m v)"
    by (simp add: RawMemory_Swap_def)
  have E: "Emplace T (Inr x) (begin_it v) v h = (Inr (Ptr ?bd 0), ?v', ?h4)"
    using buf t0 full sz c'eq alloc body sw dt
    by (simp add: Emplace_def Let_def begin_it_def end_it_def GetAddress_def)
  have d4: "block_at ?h4 ?bd = Some ?dblk"
    using d b1 by (simp add: block_at_dealloc)
  show ?thesis using E d4 by (simp add: begin_it_def GetAddress_def)
qed

subsection \<open>What an exception leaves behind\<close>

lemma keepsD: "keeps b m \<Longrightarrow> m h = (r, h') \<Longrightarrow> block_at h' b = block_at h b"
  by (auto simp: keeps_def dest: spec [of _ h])

lemma no_throwD: "no_throw m \<Longrightarrow> m h = (Inl e, h') \<Longrightarrow> \<not> is_exception e"
  by (auto simp: no_throw_def dest: spec [of _ h])

lemma keeps_on_throwD:
  "keeps_on_throw b m \<Longrightarrow> m h = (Inl e, h') \<Longrightarrow> is_exception e \<Longrightarrow> block_at h' b = block_at h b"
  by (auto simp: keeps_on_throw_def dest: spec [of _ h])

lemma keeps_imp_on_throw: "keeps b m \<Longrightarrow> keeps_on_throw b m"
  by (simp add: keeps_def keeps_on_throw_def)

lemma no_throw_imp_on_throw: "no_throw m \<Longrightarrow> keeps_on_throw b m"
  by (auto simp: no_throw_def keeps_on_throw_def)

lemma keeps_andthen:
  assumes "keeps b m" and "\<And>x. keeps b (f x)"
  shows "keeps b (andthen m f)"
  unfolding keeps_def
proof
  fix h
  obtain r h1 where m: "m h = (r, h1)" by (cases "m h") auto
  have k1: "block_at h1 b = block_at h b" using assms(1) m by (rule keepsD)
  show "block_at (snd (andthen m f h)) b = block_at h b"
  proof (cases r)
    case (Inl e)
    then show ?thesis using m k1 by (simp add: andthen_def)
  next
    case (Inr x)
    obtain r2 h2 where f: "f x h1 = (r2, h2)" by (cases "f x h1") auto
    have "block_at h2 b = block_at h1 b" using assms(2) f by (rule keepsD)
    then show ?thesis using m Inr f k1 by (simp add: andthen_def)
  qed
qed

lemma no_throw_andthen:
  assumes "no_throw m" and "\<And>x. no_throw (f x)"
  shows "no_throw (andthen m f)"
  unfolding no_throw_def
proof (intro allI impI)
  fix h e
  assume a: "fst (andthen m f h) = Inl e"
  obtain r h1 where m: "m h = (r, h1)" by (cases "m h") auto
  show "\<not> is_exception e"
  proof (cases r)
    case (Inl e')
    then have "e' = e" using a m by (simp add: andthen_def)
    then show ?thesis using assms(1) m Inl by (auto dest: no_throwD)
  next
    case (Inr x)
    obtain r2 h2 where f: "f x h1 = (r2, h2)" by (cases "f x h1") auto
    then have "r2 = Inl e" using a m Inr by (simp add: andthen_def)
    then show ?thesis using assms(2) f by (auto dest: no_throwD)
  qed
qed

lemma keeps_on_throw_andthen:
  assumes "keeps b m" and "\<And>x. keeps_on_throw b (f x)"
  shows "keeps_on_throw b (andthen m f)"
  unfolding keeps_on_throw_def
proof (intro allI impI)
  fix h e
  assume a: "fst (andthen m f h) = Inl e \<and> is_exception e"
  obtain r h1 where m: "m h = (r, h1)" by (cases "m h") auto
  have k1: "block_at h1 b = block_at h b" using assms(1) m by (rule keepsD)
  show "block_at (snd (andthen m f h)) b = block_at h b"
  proof (cases r)
    case (Inl e')
    then show ?thesis using m k1 by (simp add: andthen_def)
  next
    case (Inr x)
    obtain r2 h2 where f: "f x h1 = (r2, h2)" by (cases "f x h1") auto
    then have r2: "r2 = Inl e" using a m Inr by (simp add: andthen_def)
    have "block_at h2 b = block_at h1 b"
      using assms(2) f a unfolding r2 by (auto dest: keeps_on_throwD)
    then show ?thesis using m Inr f k1 by (simp add: andthen_def)
  qed
qed

lemma keeps_pure [simp]: "keeps b (pure_step r)" "keeps b (ret x)" "keeps b (raise e)"
  by (simp_all add: keeps_def pure_step_def ret_def raise_def)

lemma no_throw_ret [simp]: "no_throw (ret x)"
  by (simp add: no_throw_def ret_def)

lemma no_throw_raise [simp]: "\<not> is_exception e \<Longrightarrow> no_throw (raise e)"
  by (simp add: no_throw_def raise_def)

lemma ptr_add_no_exception: "ptr_add p k = Inl e \<Longrightarrow> \<not> is_exception e"
  by (cases p) (auto split: if_splits)

lemma ptr_diff_no_exception: "ptr_diff p q = Inl e \<Longrightarrow> \<not> is_exception e"
  by (cases p; cases q) (auto split: if_splits)

lemma RawMemory_plus_no_exception: "RawMemory_plus d n = Inl e \<Longrightarrow> \<not> is_exception e"
  by (auto simp: RawMemory_plus_def split: if_splits)

lemma no_throw_pure: "(\<And>e. r = Inl e \<Longrightarrow> \<not> is_exception e) \<Longrightarrow> no_throw (pure_step r)"
  by (simp add: no_throw_def pure_step_def)

lemma ptr_add_in_block: "ptr_add p k = Inr q \<Longrightarrow> in_block q b = in_block p b"
  by (cases p) (auto split: if_splits)

lemma ptr_plus_in_block [simp]: "in_block (ptr_plus p n) b = in_block p b"
  by (cases p) simp_all

lemma RawMemory_plus_in_block: "RawMemory_plus d n = Inr q \<Longrightarrow> in_block q b = in_block (buffer_m d) b"
  by (auto simp: RawMemory_plus_def split: if_splits)

lemma keeps_load [simp]: "keeps b (load p)"
  by (simp add: keeps_def load_def split: ptr.splits option.splits)

lemma no_throw_load [simp]: "no_throw (load p)"
  by (auto simp: no_throw_def load_def split: ptr.splits option.splits if_splits)

lemma keeps_put_slot: "\<not> in_block p b \<Longrightarrow> keeps b (put_slot p x)"
  by (cases p) (auto simp: keeps_def put_slot_def block_at_def split: option.splits)

lemma no_throw_put_slot [simp]: "no_throw (put_slot p x)"
  by (auto simp: no_throw_def put_slot_def split: ptr.splits option.splits if_splits)

lemma keeps_construct_at: "\<not> in_block p b \<Longrightarrow> keeps b (construct_at p x)"
  by (simp add: construct_at_def keeps_put_slot)

lemma no_throw_construct_at [simp]: "no_throw (construct_at p x)"
  by (simp add: construct_at_def)

lemma keeps_destroy_at: "\<not> in_block p b \<Longrightarrow> keeps b (destroy_at p)"
  by (simp add: destroy_at_def keeps_andthen keeps_put_slot)

lemma no_throw_destroy_at [simp]: "no_throw (destroy_at p)"
  by (simp add: destroy_at_def no_throw_andthen)

lemma destroy_n_Suc_andthen:
  "destroy_n p (Suc n) = andthen (destroy_at p) (\<lambda>u. destroy_n (ptr_plus p 1) n)"
  by (rule ext) (simp add: andthen_def split: prod.splits sum.splits)

lemma keeps_destroy_n: "\<not> in_block p b \<Longrightarrow> keeps b (destroy_n p n)"
proof (induction n arbitrary: p)
  case 0
  show ?case by (simp add: keeps_def)
next
  case (Suc n)
  show ?case
    unfolding destroy_n_Suc_andthen
    by (intro keeps_andthen keeps_destroy_at Suc.IH) (simp_all add: Suc.prems)
qed

lemma no_throw_destroy_n [simp]: "no_throw (destroy_n p n)"
proof (induction n arbitrary: p)
  case 0
  show ?case by (simp add: no_throw_def)
next
  case (Suc n)
  show ?case
    unfolding destroy_n_Suc_andthen
    by (intro no_throw_andthen no_throw_destroy_at Suc.IH)
qed

lemma keeps_placement_new: "\<not> in_block p b \<Longrightarrow> keeps b (placement_new p c)"
  by (cases c) (simp_all add: placement_new_def keeps_construct_at)

lemma placement_new_throw_unchanged:
  "fst (placement_new p c h) = Inl e \<Longrightarrow> is_exception e \<Longrightarrow> snd (placement_new p c h) = h"
proof (cases c)
  case (Inl x)
  then show ?thesis by (simp add: placement_new_def raise_def)
next
  case (Inr w)
  assume a: "fst (placement_new p c h) = Inl e" "is_exception e"
  obtain h' where "construct_at p w h = (Inl e, h')"
    using a(1) Inr by (cases "construct_at p w h") (simp add: placement_new_def)
  then have "\<not> is_exception e" using no_throw_construct_at by (rule no_throwD [rotated])
  with a(2) show ?thesis by simp
qed

lemma keeps_copy_construct_at: "\<not> in_block d b \<Longrightarrow> keeps b (copy_construct_at T d s)"
  unfolding copy_construct_at_def
  by (intro keeps_andthen) (auto simp: keeps_construct_at split: sum.splits)

lemma no_throw_move_construct_at:
  assumes "move_ctor_cannot_throw T"
  shows "no_throw (move_construct_at T d s)"
  unfolding move_construct_at_def
proof (intro no_throw_andthen no_throw_load)
  fix sv
  obtain r sv' where mc: "move_ctor T sv = (r, sv')" by (cases "move_ctor T sv") auto
  from assms obtain w where "fst (move_ctor T sv) = Inr w"
    by (auto simp: move_ctor_cannot_throw_def)
  then have r: "r = Inr w" using mc by simp
  show "no_throw (case move_ctor T sv of
            (r, sv') \<Rightarrow> andthen (put_slot s (Some sv'))
              (\<lambda>u. case r of Inl x \<Rightarrow> raise (Thrown x) | Inr w \<Rightarrow> construct_at d w))"
    by (simp add: mc r no_throw_andthen)
qed

lemma keeps_uninitialized_copy_loop:
  assumes d: "\<not> in_block d b"
  shows "keeps b (uninitialized_copy_loop T s d k n)"
proof (induction n arbitrary: k)
  case 0
  show ?case by (simp add: keeps_def)
next
  case (Suc n)
  show ?case
    unfolding keeps_def
  proof
    fix h
    obtain r h1 where c: "copy_construct_at T (ptr_plus d k) (ptr_plus s k) h = (r, h1)"
      by (cases "copy_construct_at T (ptr_plus d k) (ptr_plus s k) h") auto
    have k1: "block_at h1 b = block_at h b"
      using keeps_copy_construct_at c by (rule keepsD) (simp add: d)
    show "block_at (snd (uninitialized_copy_loop T s d k (Suc n) h)) b = block_at h b"
    proof (cases r)
      case (Inl e)
      obtain r2 h2 where dn: "destroy_n d k h1 = (r2, h2)" by (cases "destroy_n d k h1") auto
      have "block_at h2 b = block_at h1 b"
        using keeps_destroy_n dn by (rule keepsD) (rule d)
      then show ?thesis using c Inl dn k1 by (cases r2) simp_all
    next
      case (Inr u)
      obtain r2 h2 where l: "uninitialized_copy_loop T s d (Suc k) n h1 = (r2, h2)"
        by (cases "uninitialized_copy_loop T s d (Suc k) n h1") auto
      have "block_at h2 b = block_at h1 b" using Suc.IH l by (rule keepsD)
      then show ?thesis using c Inr l k1 by simp
    qed
  qed
qed

lemma no_throw_uninitialized_move_loop:
  assumes m: "move_ctor_cannot_throw T"
  shows "no_throw (uninitialized_move_loop T s d k n)"
proof (induction n arbitrary: k)
  case 0
  show ?case by (simp add: no_throw_def)
next
  case (Suc n)
  show ?case
    unfolding no_throw_def
  proof (intro allI impI)
    fix h e
    assume a: "fst (uninitialized_move_loop T s d k (Suc n) h) = Inl e"
    obtain r h1 where c: "move_construct_at T (ptr_plus d k) (ptr_plus s k) h = (r, h1)"
      by (cases "move_construct_at T (ptr_plus d k) (ptr_plus s k) h") auto
    show "\<not> is_exception e"
    proof (cases r)
      case (Inl e1)
      have ne: "\<not> is_exception e1"
        using no_throw_move_construct_at [OF m] c [unfolded Inl] by (rule no_throwD)
      then have "e1 = e" using a c Inl by simp
      then show ?thesis using ne by simp
    next
      case (Inr u)
      obtain r2 h2 where l: "uninitialized_move_loop T s d (Suc k) n h1 = (r2, h2)"
        by (cases "uninitialized_move_loop T s d (Suc k) n h1") auto
      then have "r2 = Inl e" using a c Inr by simp
      then show ?thesis using Suc.IH l by (auto dest: no_throwD)
    qed
  qed
qed

lemma keeps_UninitializedConstructN:
  "relocates_by_copy T \<Longrightarrow> \<not> in_block d b \<Longrightarrow> keeps b (UninitializedConstructN T s n d)"
  unfolding UninitializedConstructN_def uninitialized_copy_n_def relocates_by_copy_def
  by (simp add: keeps_uninitialized_copy_loop)

lemma no_throw_UninitializedConstructN:
  assumes "\<not> relocates_by_copy T" and "nothrow_move_constructible T \<or> copy_constructible T"
    and "nothrow_move_constructible T \<longrightarrow> move_ctor_cannot_throw T"
  shows "no_throw (UninitializedConstructN T s n d)"
proof -
  from assms(1,2) have n: "nothrow_move_constructible T" by (auto simp: relocates_by_copy_def)
  with assms(3) have m: "move_ctor_cannot_throw T" by simp
  show ?thesis
    unfolding UninitializedConstructN_def uninitialized_move_n_def
    using n by (simp add: no_throw_uninitialized_move_loop [OF m])
qed

lemma operator_delete_no_exception: "fst (operator_delete p h) = Inl e \<Longrightarrow> \<not> is_exception e"
  by (auto simp: operator_delete_def split: ptr.splits option.splits if_splits)

lemma operator_delete_keeps:
  "\<not> in_block p b \<Longrightarrow> block_at (snd (operator_delete p h)) b = block_at h b"
  by (cases p) (auto simp: operator_delete_def block_at_def split: option.splits)

lemma RawMemory_dtor_no_exception: "fst (RawMemory_dtor d h) = Inl e \<Longrightarrow> \<not> is_exception e"
  unfolding RawMemory_dtor_def Deallocate_def by (rule operator_delete_no_exception)

lemma unwind_RawMemory_result:
  assumes "fst (unwind_RawMemory nd e1 h1 :: (error + 'r) \<times> 'a heap) = r"
  shows "\<exists>e2. r = Inl e2 \<and>
     (is_exception e2 \<longrightarrow> e2 = e1 \<and>
        (\<forall>b. \<not> in_block (buffer_m nd) b \<longrightarrow>
           block_at (snd (unwind_RawMemory nd e1 h1 :: (error + 'r) \<times> 'a heap)) b = block_at h1 b))"
proof (cases "is_exception e1")
  case False
  then show ?thesis using assms by (auto simp: unwind_RawMemory_def)
next
  case True
  obtain r2 h2 where d: "RawMemory_dtor nd h1 = (r2, h2)" by (cases "RawMemory_dtor nd h1") auto
  show ?thesis
  proof (cases r2)
    case (Inl e')
    have "\<not> is_exception e'" using d Inl RawMemory_dtor_no_exception [of nd h1 e'] by simp
    then show ?thesis using assms True d Inl by (auto simp: unwind_RawMemory_def)
  next
    case (Inr u)
    have "\<And>b. \<not> in_block (buffer_m nd) b \<Longrightarrow> block_at h2 b = block_at h1 b"
      using operator_delete_keeps [of "buffer_m nd" _ h1] d
      by (simp add: RawMemory_dtor_def Deallocate_def)
    then show ?thesis using assms True d Inr by (auto simp: unwind_RawMemory_def)
  qed
qed

lemma RawMemory_ctor_cases:
  assumes "RawMemory_ctor n h = (r, h0)"
  shows "(r = Inl BadAlloc \<and> h0 = h) \<or>
     (\<exists>nd. r = Inr nd \<and>
        (\<forall>b < length (blocks h). block_at h0 b = block_at h b \<and> \<not> in_block (buffer_m nd) b))"
  using assms
  by (auto simp: RawMemory_ctor_def Allocate_def operator_new_def block_at_def nth_append
      split: if_splits)

lemma no_bad_allocD: "no_bad_alloc m \<Longrightarrow> m h = (Inl e, h') \<Longrightarrow> e \<noteq> BadAlloc"
  by (auto simp: no_bad_alloc_def dest: spec [of _ h])

lemma no_bad_alloc_andthen:
  assumes "no_bad_alloc m" and "\<And>x. no_bad_alloc (f x)"
  shows "no_bad_alloc (andthen m f)"
  unfolding no_bad_alloc_def
proof
  fix h
  obtain r h1 where m: "m h = (r, h1)" by (cases "m h") auto
  show "fst (andthen m f h) \<noteq> Inl BadAlloc"
  proof (cases r)
    case (Inl e)
    then have "e \<noteq> BadAlloc" using assms(1) m by (auto dest: no_bad_allocD)
    then show ?thesis using m Inl by (simp add: andthen_def)
  next
    case (Inr x)
    have "fst (f x h1) \<noteq> Inl BadAlloc" using assms(2) by (simp add: no_bad_alloc_def)
    then show ?thesis using m Inr by (simp add: andthen_def)
  qed
qed

lemma no_bad_alloc_ret [simp]: "no_bad_alloc (ret x)"
  by (simp add: no_bad_alloc_def ret_def)

lemma no_bad_alloc_raise [simp]: "e \<noteq> BadAlloc \<Longrightarrow> no_bad_alloc (raise e)"
  by (simp add: no_bad_alloc_def raise_def)

lemma no_bad_alloc_pure: "(\<And>e. r = Inl e \<Longrightarrow> \<not> is_exception e) \<Longrightarrow> no_bad_alloc (pure_step r)"
  by (auto simp: no_bad_alloc_def pure_step_def)

lemma no_throw_no_bad_alloc: "no_throw m \<Longrightarrow> no_bad_alloc m"
  unfolding no_throw_def no_bad_alloc_def
proof
  fix h
  assume a: "\<forall>h e. fst (m h) = Inl e \<longrightarrow> \<not> is_exception e"
  show "fst (m h) \<noteq> Inl BadAlloc"
  proof
    assume "fst (m h) = Inl BadAlloc"
    with a have "\<not> is_exception BadAlloc" by blast
    then show False by simp
  qed
qed

lemma no_bad_alloc_load [simp]: "no_bad_alloc (load p)"
  by (simp add: no_throw_no_bad_alloc)

lemma no_bad_alloc_put_slot [simp]: "no_bad_alloc (put_slot p x)"
  by (simp add: no_throw_no_bad_alloc)

lemma no_bad_alloc_construct_at [simp]: "no_bad_alloc (construct_at p x)"
  by (simp add: no_throw_no_bad_alloc)

lemma no_bad_alloc_destroy_n [simp]: "no_bad_alloc (destroy_n p n)"
  by (simp add: no_throw_no_bad_alloc)

lemma no_bad_alloc_placement_new [simp]: "no_bad_alloc (placement_new p c)"
  by (cases c) (simp_all add: placement_new_def)

lemma no_bad_alloc_copy_construct_at [simp]: "no_bad_alloc (copy_construct_at T d s)"
  unfolding copy_construct_at_def
  by (auto intro!: no_bad_alloc_andthen split: sum.splits)

lemma no_bad_alloc_move_construct_at [simp]: "no_bad_alloc (move_construct_at T d s)"
  unfolding move_construct_at_def
  by (auto intro!: no_bad_alloc_andthen split: prod.splits sum.splits)

lemma no_bad_alloc_uninitialized_copy_loop [simp]:
  "no_bad_alloc (uninitialized_copy_loop T s d k n)"
proof (induction n arbitrary: k)
  case 0
  show ?case by (simp add: no_bad_alloc_def)
next
  case (Suc n)
  show ?case
    unfolding no_bad_alloc_def
  proof
    fix h
    obtain r h1 where c: "copy_construct_at T (ptr_plus d k) (ptr_plus s k) h = (r, h1)"
      by (cases "copy_construct_at T (ptr_plus d k) (ptr_plus s k) h") auto
    show "fst (uninitialized_copy_loop T s d k (Suc n) h) \<noteq> Inl BadAlloc"
    proof (cases r)
      case (Inl e)
      have ne: "e \<noteq> BadAlloc"
        using no_bad_alloc_copy_construct_at c [unfolded Inl] by (rule no_bad_allocD)
      obtain r2 h2 where dn: "destroy_n d k h1 = (r2, h2)" by (cases "destroy_n d k h1") auto
      have "r2 \<noteq> Inl BadAlloc"
      proof
        assume "r2 = Inl BadAlloc"
        then have "destroy_n d k h1 = (Inl BadAlloc, h2)" using dn by simp
        from no_bad_allocD [OF no_bad_alloc_destroy_n this] show False by simp
      qed
      then show ?thesis using c Inl dn ne by (cases r2) simp_all
    next
      case (Inr u)
      have "fst (uninitialized_copy_loop T s d (Suc k) n h1) \<noteq> Inl BadAlloc"
        using Suc.IH by (simp add: no_bad_alloc_def)
      then show ?thesis using c Inr by simp
    qed
  qed
qed

lemma no_bad_alloc_uninitialized_move_loop [simp]:
  "no_bad_alloc (uninitialized_move_loop T s d k n)"
proof (induction n arbitrary: k)
  case 0
  show ?case by (simp add: no_bad_alloc_def)
next
  case (Suc n)
  show ?case
    unfolding no_bad_alloc_def
  proof
    fix h
    obtain r h1 where c: "move_construct_at T (ptr_plus d k) (ptr_plus s k) h = (r, h1)"
      by (cases "move_construct_at T (ptr_plus d k) (ptr_plus s k) h") auto
    show "fst (uninitialized_move_loop T s d k (Suc n) h) \<noteq> Inl BadAlloc"
    proof (cases r)
      case (Inl e)
      have ne: "e \<noteq> BadAlloc"
        using no_bad_alloc_move_construct_at c [unfolded Inl] by (rule no_bad_allocD)
      obtain r2 h2 where dn: "destroy_n d k h1 = (r2, h2)" by (cases "destroy_n d k h1") auto
      have "r2 \<noteq> Inl BadAlloc"
      proof
        assume "r2 = Inl BadAlloc"
        then have "destroy_n d k h1 = (Inl BadAlloc, h2)" using dn by simp
        from no_bad_allocD [OF no_bad_alloc_destroy_n this] show False by simp
      qed
      then show ?thesis using c Inl dn ne by (cases r2) simp_all
    next
      case (Inr u)
      have "fst (uninitialized_move_loop T s d (Suc k) n h1) \<noteq> Inl BadAlloc"
        using Suc.IH by (simp add: no_bad_alloc_def)
      then show ?thesis using c Inr by simp
    qed
  qed
qed

lemma no_bad_alloc_UninitializedConstructN [simp]:
  "no_bad_alloc (UninitializedConstructN T s n d)"
  by (simp add: UninitializedConstructN_def uninitialized_move_n_def uninitialized_copy_n_def)

lemma grow_pattern:
  fixes body :: "'a heap \<Rightarrow> (error + 'x) \<times> 'a heap"
    and fin :: "'x \<Rightarrow> raw_memory \<Rightarrow> 'a heap \<Rightarrow> (error + 'y) \<times> vector \<times> 'a heap"
  assumes body: "\<And>h1. body h0 = (Inl e, h1) \<Longrightarrow> block_at h1 b = block_at h0 b"
    and h0: "block_at h0 b = block_at h b" and nd: "\<not> in_block (buffer_m nd) b"
    and fin: "\<And>x d h2 e. fst (fin x d h2) = Inl e \<Longrightarrow> \<not> is_exception e"
    and R: "R = (case body h0 of
                   (Inl e, h1) \<Rightarrow> (case unwind_RawMemory nd e h1 of (r, h2) \<Rightarrow> (r, this, h2))
                 | (Inr x, h1) \<Rightarrow>
                     (let (d, nd') = RawMemory_Swap (data_m this) nd
                      in case RawMemory_dtor nd' h1 of
                           (Inl e, h2) \<Rightarrow> (Inl e, upd d, h2)
                         | (Inr u, h2) \<Rightarrow> fin x d h2))"
    and e: "fst R = Inl e" "is_exception e"
  shows "fst (snd R) = this \<and> block_at (snd (snd R)) b = block_at h b"
proof -
  obtain r1 h1 where b1: "body h0 = (r1, h1)" by (cases "body h0") auto
  show ?thesis
  proof (cases r1)
    case (Inl e1)
    obtain r h2 where u: "(unwind_RawMemory nd e1 h1 :: (error + 'y) \<times> 'a heap) = (r, h2)"
      by (cases "unwind_RawMemory nd e1 h1 :: (error + 'y) \<times> 'a heap") auto
    have RR: "R = (r, this, h2)" using R b1 Inl u by simp
    then have r: "r = Inl e" using e(1) by simp
    from unwind_RawMemory_result [of nd e1 h1 r] u r e(2)
    have e1: "e = e1" and k: "block_at h2 b = block_at h1 b"
      using nd by auto
    have "block_at h1 b = block_at h0 b"
      using b1 Inl e1 by (intro body) simp
    then show ?thesis using RR k h0 by simp
  next
    case (Inr x)
    obtain d nd' where sw: "RawMemory_Swap (data_m this) nd = (d, nd')"
      by (cases "RawMemory_Swap (data_m this) nd") auto
    obtain r2 h2 where dt: "RawMemory_dtor nd' h1 = (r2, h2)"
      by (cases "RawMemory_dtor nd' h1") auto
    show ?thesis
    proof (cases r2)
      case (Inl e')
      have "\<not> is_exception e'" using dt Inl RawMemory_dtor_no_exception [of nd' h1 e'] by simp
      moreover have "fst R = Inl e'" using R b1 Inr sw dt Inl by simp
      ultimately show ?thesis using e by simp
    next
      case (Inr u)
      have "R = fin x d h2" using R b1 \<open>r1 = Inr x\<close> sw dt Inr by simp
      then have "\<not> is_exception e" using fin e(1) by simp
      then show ?thesis using e(2) by simp
    qed
  qed
qed

lemma keeps_on_throw_pure_andthen:
  assumes "\<And>x. r = Inr x \<Longrightarrow> keeps_on_throw b (f x)"
  shows "keeps_on_throw b (andthen (pure_step r) f)"
proof (cases r)
  case (Inl e)
  then show ?thesis by (simp add: keeps_on_throw_def andthen_def pure_step_def)
next
  case (Inr x)
  have "andthen (pure_step r) f = f x"
    by (rule ext) (simp add: andthen_def pure_step_def Inr)
  then show ?thesis using assms [OF Inr] by simp
qed

lemma no_throw_pure_andthen:
  assumes "\<And>e. r = Inl e \<Longrightarrow> \<not> is_exception e" and "\<And>x. no_throw (f x)"
  shows "no_throw (andthen (pure_step r) f)"
  using assms by (intro no_throw_andthen no_throw_pure)

lemma relocation_then_no_throw:
  assumes s: "strong_relocation T" and d: "\<not> in_block d b" and g: "\<And>u. no_throw (g u)"
  shows "keeps_on_throw b (andthen (UninitializedConstructN T s n d) g)"
proof (cases "relocates_by_copy T")
  case True
  show ?thesis
    by (intro keeps_on_throw_andthen keeps_UninitializedConstructN [OF True d]
        no_throw_imp_on_throw g)
next
  case False
  have "no_throw (UninitializedConstructN T s n d)"
    using False s by (intro no_throw_UninitializedConstructN) (simp_all add: strong_relocation_def)
  then show ?thesis
    by (intro no_throw_imp_on_throw no_throw_andthen g)
qed

lemma Reserve_strong:
  assumes s: "strong_relocation T \<or> e = BadAlloc"
    and e: "fst (Reserve T n v h) = Inl e" "is_exception e"
    and b: "b < length (blocks h)"
  shows "fst (snd (Reserve T n v h)) = v \<and> block_at (snd (snd (Reserve T n v h))) b = block_at h b"
proof (cases "n \<le> capacity_m (data_m v)")
  case True
  then show ?thesis using e by (simp add: Reserve_def)
next
  case False
  obtain r0 h0 where a: "RawMemory_ctor n h = (r0, h0)" by (cases "RawMemory_ctor n h") auto
  from RawMemory_ctor_cases [OF a] show ?thesis
  proof
    assume "r0 = Inl BadAlloc \<and> h0 = h"
    then show ?thesis using False a by (simp add: Reserve_def)
  next
    assume "\<exists>nd. r0 = Inr nd \<and>
        (\<forall>b < length (blocks h). block_at h0 b = block_at h b \<and> \<not> in_block (buffer_m nd) b)"
    then obtain nd where r0: "r0 = Inr nd" and h0: "block_at h0 b = block_at h b"
      and nd: "\<not> in_block (buffer_m nd) b"
      using b by blast
    let ?body = "andthen (UninitializedConstructN T (GetAddress (data_m v))
                        (to_int (int (size_m v))) (GetAddress nd))
                   (\<lambda>u. destroy_n (GetAddress (data_m v)) (size_m v))"
    have body: "block_at h1 b = block_at h0 b" if bh: "?body h0 = (Inl e, h1)" for h1
    proof (cases "strong_relocation T")
      case True
      have "keeps_on_throw b ?body"
        using nd by (intro relocation_then_no_throw [OF True]) (simp_all add: GetAddress_def)
      then show ?thesis using bh e(2) by (rule keeps_on_throwD)
    next
      case False
      then have "e = BadAlloc" using s by simp
      moreover have "no_bad_alloc ?body"
        by (intro no_bad_alloc_andthen) simp_all
      ultimately show ?thesis using bh by (auto dest: no_bad_allocD)
    qed
    have R: "Reserve T n v h =
        (case ?body h0 of
           (Inl e, h1) \<Rightarrow> (case unwind_RawMemory nd e h1 of (r, h2) \<Rightarrow> (r, v, h2))
         | (Inr x, h1) \<Rightarrow>
             (let (d, nd') = RawMemory_Swap (data_m v) nd
              in case RawMemory_dtor nd' h1 of
                   (Inl e, h2) \<Rightarrow> (Inl e, v\<lparr>data_m := d\<rparr>, h2)
                 | (Inr u, h2) \<Rightarrow> (Inr (), v\<lparr>data_m := d\<rparr>, h2)))"
      using False a r0 by (simp add: Reserve_def)
    show ?thesis
      by (rule grow_pattern [where body = ?body and ?h0.0 = h0, OF body h0 nd _ R e]) simp_all
  qed
qed

lemma EmplaceBack_strong:
  assumes s: "strong_relocation T \<or> isl c \<or> e = BadAlloc"
    and e: "fst (EmplaceBack T c v h) = Inl e" "is_exception e"
    and b: "b < length (blocks h)"
  shows "fst (snd (EmplaceBack T c v h)) = v
         \<and> block_at (snd (snd (EmplaceBack T c v h))) b = block_at h b"
proof (cases "size_m v = Capacity v")
  case False
  let ?r = "RawMemory_plus (data_m v) (size_m v)"
  show ?thesis
  proof (cases ?r)
    case (Inl e')
    then show ?thesis using False e by (simp add: EmplaceBack_def andthen_def pure_step_def)
  next
    case (Inr p)
    obtain r1 h1 where pn: "placement_new p c h = (r1, h1)" by (cases "placement_new p c h") auto
    show ?thesis
    proof (cases r1)
      case (Inl e')
      then have E: "EmplaceBack T c v h = (Inl e', v, h1)"
        using False Inr pn by (simp add: EmplaceBack_def andthen_def pure_step_def)
      then have "e' = e" using e(1) by simp
      then have "h1 = h"
        using placement_new_throw_unchanged [of p c h e] pn Inl e(2) by simp
      then show ?thesis using E by simp
    next
      case (Inr u)
      then show ?thesis
        using False \<open>?r = Inr p\<close> pn e by (simp add: EmplaceBack_def andthen_def pure_step_def ret_def)
    qed
  qed
next
  case True
  let ?c' = "if size_m v = 0 then 1 else to_size_t (int (size_m v) * 2)"
  obtain r0 h0 where a: "RawMemory_ctor ?c' h = (r0, h0)" by (cases "RawMemory_ctor ?c' h") auto
  from RawMemory_ctor_cases [OF a] show ?thesis
  proof
    assume "r0 = Inl BadAlloc \<and> h0 = h"
    then show ?thesis using True a by (simp add: EmplaceBack_def)
  next
    assume "\<exists>nd. r0 = Inr nd \<and>
        (\<forall>b < length (blocks h). block_at h0 b = block_at h b \<and> \<not> in_block (buffer_m nd) b)"
    then obtain nd where r0: "r0 = Inr nd" and h0: "block_at h0 b = block_at h b"
      and nd: "\<not> in_block (buffer_m nd) b"
      using b by blast
    let ?body = "andthen (pure_step (RawMemory_plus nd (size_m v))) (\<lambda>result.
                   andthen (placement_new result c) (\<lambda>u.
                   andthen (UninitializedConstructN T (GetAddress (data_m v))
                        (to_int (int (size_m v))) (GetAddress nd)) (\<lambda>u.
                   andthen (destroy_n (GetAddress (data_m v)) (size_m v)) (\<lambda>u.
                   ret result))))"
    have body: "block_at h1 b = block_at h0 b" if bh: "?body h0 = (Inl e, h1)" for h1
    proof -
      consider (strong) "strong_relocation T" | (ctor) "isl c" | (alloc) "e = BadAlloc"
        using s by blast
      then show ?thesis
      proof cases
        case strong
        have "keeps_on_throw b ?body"
        proof (rule keeps_on_throw_pure_andthen)
          fix p assume p: "RawMemory_plus nd (size_m v) = Inr p"
          have np: "\<not> in_block p b" using RawMemory_plus_in_block [OF p] nd by simp
          show "keeps_on_throw b (andthen (placement_new p c) (\<lambda>u.
                       andthen (UninitializedConstructN T (GetAddress (data_m v))
                            (to_int (int (size_m v))) (GetAddress nd)) (\<lambda>u.
                       andthen (destroy_n (GetAddress (data_m v)) (size_m v)) (\<lambda>u.
                       ret p))))"
            using nd
            by (intro keeps_on_throw_andthen keeps_placement_new [OF np]
                relocation_then_no_throw [OF strong] no_throw_andthen no_throw_destroy_n no_throw_ret)
              (simp add: GetAddress_def)
        qed
        then show ?thesis using bh e(2) by (rule keeps_on_throwD)
      next
        case ctor
        then obtain x where c: "c = Inl x" by (cases c) simp_all
        have "snd (?body h0) = h0"
          by (simp add: c andthen_def pure_step_def placement_new_def raise_def split: sum.splits)
        then show ?thesis using bh by simp
      next
        case alloc
        have "no_bad_alloc ?body"
          by (intro no_bad_alloc_andthen no_bad_alloc_pure)
            (auto dest: RawMemory_plus_no_exception)
        then show ?thesis using bh alloc by (auto dest: no_bad_allocD)
      qed
    qed
    have R: "EmplaceBack T c v h =
        (case ?body h0 of
           (Inl e, h1) \<Rightarrow> (case unwind_RawMemory nd e h1 of (r, h2) \<Rightarrow> (r, v, h2))
         | (Inr x, h1) \<Rightarrow>
             (let (d, nd') = RawMemory_Swap (data_m v) nd
              in case RawMemory_dtor nd' h1 of
                   (Inl e, h2) \<Rightarrow> (Inl e, v\<lparr>data_m := d\<rparr>, h2)
                 | (Inr u, h2) \<Rightarrow> (Inr x, v\<lparr>data_m := d, size_m := size_m v + 1\<rparr>, h2)))"
      using True a r0 by (simp add: EmplaceBack_def)
    show ?thesis
      by (rule grow_pattern [where body = ?body and ?h0.0 = h0, OF body h0 nd _ R e]) simp_all
  qed
qed

lemma Emplace_strong:
  assumes s: "strong_relocation T \<or> isl c \<or> e = BadAlloc"
    and g: "capacity_m (data_m v) \<le> size_m v"
    and e: "fst (Emplace T c pos v h) = Inl e" "is_exception e"
    and b: "b < length (blocks h)"
  shows "fst (snd (Emplace T c pos v h)) = v
         \<and> block_at (snd (snd (Emplace T c pos v h))) b = block_at h b"
proof (cases "ptr_le (begin_it v) pos \<and> ptr_le pos (end_it v)")
  case False
  then show ?thesis using e by (simp add: Emplace_def)
next
  case True
  show ?thesis
  proof (cases "ptr_diff pos (begin_it v)")
    case (Inl e')
    then have "Emplace T c pos v h = (Inl e', v, h)" using True by (simp add: Emplace_def)
    then show ?thesis by simp
  next
    case (Inr diff)
    let ?off = "to_int diff"
    let ?c' = "if size_m v = 0 then 1 else to_size_t (int (size_m v) * 2)"
    obtain r0 h0 where a: "RawMemory_ctor ?c' h = (r0, h0)" by (cases "RawMemory_ctor ?c' h") auto
    from RawMemory_ctor_cases [OF a] show ?thesis
    proof
      assume "r0 = Inl BadAlloc \<and> h0 = h"
      then show ?thesis using True Inr g a by (simp add: Emplace_def)
    next
      assume "\<exists>nd. r0 = Inr nd \<and>
          (\<forall>b < length (blocks h). block_at h0 b = block_at h b \<and> \<not> in_block (buffer_m nd) b)"
      then obtain nd where r0: "r0 = Inr nd" and h0: "block_at h0 b = block_at h b"
        and nd: "\<not> in_block (buffer_m nd) b"
        using b by blast
      let ?tail = "\<lambda>u :: unit. andthen (pure_step (ptr_add (GetAddress (data_m v)) ?off)) (\<lambda>src.
                     andthen (pure_step (ptr_add (GetAddress nd) (?off + 1))) (\<lambda>dst.
                     andthen (UninitializedConstructN T src
                          (to_int (int (to_size_t (int (size_m v) - ?off)))) dst) (\<lambda>u.
                     destroy_n (GetAddress (data_m v)) (size_m v))))"
      let ?body = "andthen (pure_step (ptr_add (GetAddress nd) ?off)) (\<lambda>p.
                     andthen (placement_new p c) (\<lambda>u.
                     andthen (UninitializedConstructN T (GetAddress (data_m v)) ?off
                          (GetAddress nd)) ?tail))"
      have nd': "\<not> in_block (GetAddress nd) b" using nd by (simp add: GetAddress_def)
      have body: "block_at h1 b = block_at h0 b" if bh: "?body h0 = (Inl e, h1)" for h1
      proof -
        consider (strong) "strong_relocation T" | (ctor) "isl c" | (alloc) "e = BadAlloc"
          using s by blast
        then show ?thesis
        proof cases
          case strong
          have tail2: "\<And>src. keeps_on_throw b
              (andthen (pure_step (ptr_add (GetAddress nd) (?off + 1))) (\<lambda>dst.
                 andthen (UninitializedConstructN T src
                      (to_int (int (to_size_t (int (size_m v) - ?off)))) dst) (\<lambda>u.
                 destroy_n (GetAddress (data_m v)) (size_m v))))"
          proof (rule keeps_on_throw_pure_andthen)
            fix src dst assume d: "ptr_add (GetAddress nd) (?off + 1) = Inr dst"
            have nd2: "\<not> in_block dst b" using ptr_add_in_block [OF d] nd' by simp
            show "keeps_on_throw b (andthen (UninitializedConstructN T src
                      (to_int (int (to_size_t (int (size_m v) - ?off)))) dst) (\<lambda>u.
                 destroy_n (GetAddress (data_m v)) (size_m v)))"
              by (intro relocation_then_no_throw [OF strong nd2] no_throw_destroy_n)
          qed
          have tail: "keeps_on_throw b (andthen (UninitializedConstructN T (GetAddress (data_m v)) ?off
                              (GetAddress nd)) ?tail)"
          proof (cases "relocates_by_copy T")
            case True
            show ?thesis
            proof (rule keeps_on_throw_andthen [OF keeps_UninitializedConstructN [OF True nd']])
              fix u :: unit
              show "keeps_on_throw b (?tail u)"
                by (rule keeps_on_throw_pure_andthen) (rule tail2)
            qed
          next
            case False
            have nt: "\<And>s n d. no_throw (UninitializedConstructN T s n d)"
              using False strong
              by (intro no_throw_UninitializedConstructN) (simp_all add: strong_relocation_def)
            show ?thesis
              by (intro no_throw_imp_on_throw no_throw_andthen nt no_throw_pure_andthen
                  no_throw_destroy_n) (auto dest: ptr_add_no_exception)
          qed
          have "keeps_on_throw b ?body"
          proof (rule keeps_on_throw_pure_andthen)
            fix p assume p: "ptr_add (GetAddress nd) ?off = Inr p"
            have np: "\<not> in_block p b" using ptr_add_in_block [OF p] nd' by simp
            show "keeps_on_throw b (andthen (placement_new p c) (\<lambda>u.
                         andthen (UninitializedConstructN T (GetAddress (data_m v)) ?off
                              (GetAddress nd)) ?tail))"
              by (intro keeps_on_throw_andthen keeps_placement_new [OF np] tail)
          qed
          then show ?thesis using bh e(2) by (rule keeps_on_throwD)
        next
          case ctor
          then obtain x where c: "c = Inl x" by (cases c) simp_all
          have "snd (?body h0) = h0"
            by (simp add: c andthen_def pure_step_def placement_new_def raise_def split: sum.splits)
          then show ?thesis using bh by simp
        next
          case alloc
          have "no_bad_alloc ?body"
            by (intro no_bad_alloc_andthen no_bad_alloc_pure)
              (auto dest: ptr_add_no_exception)
          then show ?thesis using bh alloc by (auto dest: no_bad_allocD)
        qed
      qed
      have R: "Emplace T c pos v h =
          (case ?body h0 of
             (Inl e, h1) \<Rightarrow> (case unwind_RawMemory nd e h1 of (r, h2) \<Rightarrow> (r, v, h2))
           | (Inr x, h1) \<Rightarrow>
               (let (d, nd') = RawMemory_Swap (data_m v) nd
                in case RawMemory_dtor nd' h1 of
                     (Inl e, h2) \<Rightarrow> (Inl e, v\<lparr>data_m := d\<rparr>, h2)
                   | (Inr u, h2) \<Rightarrow>
                       (let this' = v\<lparr>data_m := d, size_m := size_m v + 1\<rparr>
                        in (ptr_add (begin_it this') ?off, this', h2))))"
        using True Inr g a r0 by (simp add: Emplace_def Let_def)
      show ?thesis
        by (rule grow_pattern [where body = ?body and ?h0.0 = h0, OF body h0 nd _ R e])
          (auto simp: Let_def dest: ptr_add_no_exception)
    qed
  qed
qed

lemma represents_kept:
  assumes r: "represents v h xs"
    and k: "\<And>b. b < length (blocks h) \<Longrightarrow> block_at h' b = block_at h b"
  shows "represents v h' xs"
proof (rule represents_frame [OF r])
  fix c assume c: "buffer_m (data_m v) = Ptr c 0"
  with r have "\<exists>s. block_at h c = Some s" by (simp add: represents_def)
  then have "c < length (blocks h)" by (auto dest: block_at_Some_less)
  then show "block_at h' c = block_at h c" by (rule k)
qed

lemma RawMemory_dtor_no_exception': "RawMemory_dtor d h = (Inl e, h') \<Longrightarrow> \<not> is_exception e"
  using RawMemory_dtor_no_exception [of d h e] by simp

lemma Reserve_this:
  "fst (Reserve T n v h) = Inl e \<Longrightarrow> is_exception e \<Longrightarrow> fst (snd (Reserve T n v h)) = v"
  by (auto simp: Reserve_def Let_def split: if_splits prod.splits sum.splits
      dest: RawMemory_dtor_no_exception')

lemma EmplaceBack_this:
  "fst (EmplaceBack T c v h) = Inl e \<Longrightarrow> is_exception e \<Longrightarrow> fst (snd (EmplaceBack T c v h)) = v"
  by (auto simp: EmplaceBack_def Let_def split: if_splits prod.splits sum.splits
      dest: RawMemory_dtor_no_exception')

lemma Emplace_this:
  "fst (Emplace T c pos v h) = Inl e \<Longrightarrow> is_exception e \<Longrightarrow> fst (snd (Emplace T c pos v h)) = v"
  by (auto simp: Emplace_def Let_def split: if_splits prod.splits sum.splits
      dest: RawMemory_dtor_no_exception' ptr_add_no_exception)

subsection \<open>Copy assignment within the capacity allocates nothing\<close>

lemma allocates_nothingD:
  "allocates_nothing m \<Longrightarrow> m h = (r, h') \<Longrightarrow>
   length (blocks h') = length (blocks h) \<and> avail h' = avail h"
  by (auto simp: allocates_nothing_def dest: spec [of _ h])

lemma allocates_nothing_andthen:
  assumes "allocates_nothing m" and "\<And>x. allocates_nothing (f x)"
  shows "allocates_nothing (andthen m f)"
  unfolding allocates_nothing_def
proof
  fix h
  obtain r h1 where m: "m h = (r, h1)" by (cases "m h") auto
  note k1 = allocates_nothingD [OF assms(1) m]
  show "length (blocks (snd (andthen m f h))) = length (blocks h)
        \<and> avail (snd (andthen m f h)) = avail h"
  proof (cases r)
    case (Inl e)
    then show ?thesis using m k1 by (simp add: andthen_def)
  next
    case (Inr x)
    obtain r2 h2 where f: "f x h1 = (r2, h2)" by (cases "f x h1") auto
    note k2 = allocates_nothingD [OF assms(2) f]
    show ?thesis using m Inr f k1 k2 by (simp add: andthen_def)
  qed
qed

lemma allocates_nothing_pure [simp]:
  "allocates_nothing (pure_step r)" "allocates_nothing (ret x)" "allocates_nothing (raise e)"
  by (simp_all add: allocates_nothing_def pure_step_def ret_def raise_def)

lemma allocates_nothing_load [simp]: "allocates_nothing (load p)"
  by (simp add: allocates_nothing_def load_def split: ptr.splits option.splits)

lemma allocates_nothing_put_slot [simp]: "allocates_nothing (put_slot p x)"
  by (simp add: allocates_nothing_def put_slot_def split: ptr.splits option.splits)

lemma allocates_nothing_construct_at [simp]: "allocates_nothing (construct_at p x)"
  by (simp add: construct_at_def)

lemma allocates_nothing_destroy_at [simp]: "allocates_nothing (destroy_at p)"
  by (simp add: destroy_at_def allocates_nothing_andthen)

lemma allocates_nothing_destroy_n [simp]: "allocates_nothing (destroy_n p n)"
proof (induction n arbitrary: p)
  case 0
  show ?case by (simp add: allocates_nothing_def)
next
  case (Suc n)
  show ?case
    unfolding destroy_n_Suc_andthen
    by (intro allocates_nothing_andthen allocates_nothing_destroy_at Suc.IH)
qed

lemma allocates_nothing_copy_assign_at [simp]: "allocates_nothing (copy_assign_at T d s)"
  unfolding copy_assign_at_def
  by (intro allocates_nothing_andthen allocates_nothing_load)
    (auto intro!: allocates_nothing_andthen split: prod.splits option.splits)

lemma allocates_nothing_copy_construct_at [simp]: "allocates_nothing (copy_construct_at T d s)"
  unfolding copy_construct_at_def
  by (intro allocates_nothing_andthen allocates_nothing_load) (auto split: sum.splits)

lemma copy_loop_Suc_andthen:
  "copy_loop T s d (Suc n)
     = andthen (copy_assign_at T d s) (\<lambda>u. copy_loop T (ptr_plus s 1) (ptr_plus d 1) n)"
  by (rule ext) (simp add: andthen_def split: prod.splits sum.splits)

lemma allocates_nothing_copy_loop [simp]: "allocates_nothing (copy_loop T s d n)"
proof (induction n arbitrary: s d)
  case 0
  show ?case by (simp add: allocates_nothing_def)
next
  case (Suc n)
  show ?case
    unfolding copy_loop_Suc_andthen
    by (intro allocates_nothing_andthen allocates_nothing_copy_assign_at Suc.IH)
qed

lemma allocates_nothing_uninitialized_copy_loop [simp]:
  "allocates_nothing (uninitialized_copy_loop T s d k n)"
proof (induction n arbitrary: k)
  case 0
  show ?case by (simp add: allocates_nothing_def)
next
  case (Suc n)
  show ?case
    unfolding allocates_nothing_def
  proof
    fix h
    obtain r h1 where c: "copy_construct_at T (ptr_plus d k) (ptr_plus s k) h = (r, h1)"
      by (cases "copy_construct_at T (ptr_plus d k) (ptr_plus s k) h") auto
    note k1 = allocates_nothingD [OF allocates_nothing_copy_construct_at c]
    show "length (blocks (snd (uninitialized_copy_loop T s d k (Suc n) h))) = length (blocks h)
          \<and> avail (snd (uninitialized_copy_loop T s d k (Suc n) h)) = avail h"
    proof (cases r)
      case (Inl e)
      obtain r2 h2 where dn: "destroy_n d k h1 = (r2, h2)" by (cases "destroy_n d k h1") auto
      note k2 = allocates_nothingD [OF allocates_nothing_destroy_n dn]
      show ?thesis using c Inl dn k1 k2 by (cases r2) simp_all
    next
      case (Inr u)
      obtain r2 h2 where l: "uninitialized_copy_loop T s d (Suc k) n h1 = (r2, h2)"
        by (cases "uninitialized_copy_loop T s d (Suc k) n h1") auto
      note k2 = allocates_nothingD [OF Suc.IH l]
      show ?thesis using c Inr l k1 k2 by simp
    qed
  qed
qed

lemma allocates_nothing_std_copy [simp]: "allocates_nothing (std_copy T f l d)"
  unfolding std_copy_def
  by (intro allocates_nothing_andthen) simp_all

lemma allocates_nothing_uninitialized_copy_n [simp]:
  "allocates_nothing (uninitialized_copy_n T f n d)"
  by (simp add: uninitialized_copy_n_def)

lemma Vector_copy_assign_frame:
  assumes "\<not> size_m b > capacity_m (data_m a)"
  shows "data_m (fst (snd (Vector_copy_assign T (Other b) a h))) = data_m a
    \<and> length (blocks (snd (snd (Vector_copy_assign T (Other b) a h)))) = length (blocks h)
    \<and> avail (snd (snd (Vector_copy_assign T (Other b) a h))) = avail h"
proof -
  let ?body = "if size_m a > size_m b
          then andthen (std_copy T (GetAddress (data_m b)) (ptr_plus (GetAddress (data_m b)) (size_m b))
                          (GetAddress (data_m a))) (\<lambda>u.
               destroy_n (ptr_plus (GetAddress (data_m a)) (size_m b)) (size_m a - size_m b))
          else andthen (std_copy T (GetAddress (data_m b)) (ptr_plus (GetAddress (data_m b)) (size_m a))
                          (GetAddress (data_m a))) (\<lambda>u.
               uninitialized_copy_n T (ptr_plus (GetAddress (data_m b)) (size_m a))
                 (int (size_m b - size_m a)) (ptr_plus (GetAddress (data_m a)) (size_m a)))"
  have an: "allocates_nothing ?body"
    by (simp add: allocates_nothing_andthen)
  obtain r h1 where b: "?body h = (r, h1)" by (cases "?body h") auto
  note k = allocates_nothingD [OF an b]
  have "Vector_copy_assign T (Other b) a h =
      (case r of Inl e \<Rightarrow> (Inl e, a, h1) | Inr u \<Rightarrow> (Inr (), a\<lparr>size_m := size_m b\<rparr>, h1))"
    using assms b by (simp add: Vector_copy_assign_def split: sum.splits)
  then show ?thesis using k by (cases r) simp_all
qed

subsection \<open>The example states\<close>

lemma represents_ex3: "represents ex_vec3 ex_heap3 [10, 20, 30]"
  by (simp add: represents_def ex_vec3_def ex_heap3_def block_at_def)

lemma int_ops_faithful:
  "faithful_copy int_ops" "faithful_move int_ops" "faithful_copy_assign int_ops"
  "faithful_move_assign int_ops" "move_assign_cannot_throw int_ops" "move_ctor_cannot_throw int_ops"
  by (simp_all add: int_ops_def faithful_copy_def faithful_move_def faithful_copy_assign_def
      faithful_move_assign_def move_assign_cannot_throw_def move_ctor_cannot_throw_def)


lemma int_ops_transfers: "move_assign_transfers int_ops"
  by (simp add: move_assign_transfers_def int_ops_def)

lemma throw_ops_transfers: "move_assign_transfers throw_ops"
  by (simp add: move_assign_transfers_def throw_ops_def)

lemma int_ops_copy_transfers: "copy_transfers int_ops"
  by (simp add: copy_transfers_def int_ops_def)

lemma throw_ops_copy_transfers: "copy_transfers throw_ops"
  by (simp add: copy_transfers_def throw_ops_def)


subsection \<open>RawMemory: moving\<close>

text \<open>
  C1. Move-construction and move-assignment of RawMemory copy the block address and the
  capacity into the destination, and they neither fail nor touch the heap; but the
  source keeps both. For a RawMemory that owns block 0 with capacity 3 the source still
  has capacity 3 and the address of the block afterwards, so two objects own one block:
  destroying the destination releases it, and destroying the source then releases it a
  second time, which is undefined. (The move-assignment also never releases the block
  the destination owned before.)
\<close>

theorem RawMemory_move_keeps_source:
  "RawMemory_move_ctor \<lparr>buffer_m = Ptr 0 0, capacity_m = 3\<rparr>
     = (\<lparr>buffer_m = Ptr 0 0, capacity_m = 3\<rparr>, \<lparr>buffer_m = Ptr 0 0, capacity_m = 3\<rparr>)
   \<and> RawMemory_move_assign RawMemory_default \<lparr>buffer_m = Ptr 0 0, capacity_m = 3\<rparr>
     = (\<lparr>buffer_m = Ptr 0 0, capacity_m = 3\<rparr>, \<lparr>buffer_m = Ptr 0 0, capacity_m = 3\<rparr>)
   \<and> capacity_m (snd (RawMemory_move_ctor \<lparr>buffer_m = Ptr 0 0, capacity_m = 3\<rparr>)) \<noteq> 0
   \<and> buffer_m (snd (RawMemory_move_ctor \<lparr>buffer_m = Ptr 0 0, capacity_m = 3\<rparr>)) \<noteq> Null
   \<and> (let h0 = \<lparr>blocks = [Some [None, None, None :: nat option]], avail = 10\<rparr>;
          (dst, src) = RawMemory_move_ctor \<lparr>buffer_m = Ptr 0 0, capacity_m = 3\<rparr>;
          (r1, h1) = RawMemory_dtor dst h0;
          (r2, h2) = RawMemory_dtor src h1
      in r1 = Inr () \<and> r2 = Inl UndefinedBehaviour)"
  by (simp add: RawMemory_move_ctor_def RawMemory_move_assign_def RawMemory_default_def
      RawMemory_dtor_def Deallocate_def operator_delete_def block_at_def)

subsection \<open>Vector: moving\<close>

text \<open>
  C7. Move-constructing a vector from \<open>v\<close> gives a destination with exactly the members
  \<open>v\<close> had (the same block, so the same elements, the same size and capacity) and leaves
  \<open>v\<close> empty: size 0, capacity 0, no block. The heap is not touched.
\<close>

theorem Vector_move_ctor_takes_all:
  "fst (Vector_move_ctor v) = v
   \<and> Size (snd (Vector_move_ctor v)) = 0
   \<and> Capacity (snd (Vector_move_ctor v)) = 0
   \<and> begin_it (snd (Vector_move_ctor v)) = Null
   \<and> represents (fst (Vector_move_ctor v)) h xs = represents v h xs"
proof -
  have "Vector_move_ctor v = (v, Vector_default)"
    by (simp add: Vector_move_ctor_def Swap_def RawMemory_Swap_def Vector_default_def
        RawMemory_default_def)
  then show ?thesis
    by (simp add: Vector_default_def RawMemory_default_def Size_def Capacity_def begin_it_def
        GetAddress_def)
qed

text \<open>
  C10. Move-assignment between two distinct vectors is a swap of their members: the
  target gets the source's block, capacity and size, and the source gets the target's,
  so the source is empty afterwards only when the target was; and assigning a vector to
  itself changes nothing.
\<close>

theorem Vector_move_assign_swaps:
  "Vector_move_assign a (Other b) = (b, Other a)
   \<and> Vector_move_assign a Self = (a, Self)"
  by (simp add: Vector_move_assign_def Swap_def RawMemory_Swap_def)

subsection \<open>PopBack\<close>

lemma PopBack_nonempty:
  assumes "represents v h xs" "xs \<noteq> []"
  shows "fst (PopBack v h) = Inr ()
         \<and> represents (fst (snd (PopBack v h))) (snd (snd (PopBack v h))) (butlast xs)
         \<and> Size (fst (snd (PopBack v h))) = Size v - 1
         \<and> Capacity (fst (snd (PopBack v h))) = Capacity v"
proof (cases "buffer_m (data_m v)")
  case Null
  with assms have "length xs = 0" by (auto simp: represents_def)
  with assms(2) show ?thesis by simp
next
  case (Ptr b i)
  let ?c = "capacity_m (data_m v)"
  from assms Ptr have sz: "size_m v = length xs" and le: "length xs \<le> ?c" and i: "i = 0"
    and cb: "?c < 18446744073709551616"
    and blk: "block_at h b = Some (map Some xs @ replicate (?c - length xs) None)"
    by (simp_all add: represents_def)
  from blk have b: "b < length (blocks h)" by (rule block_at_Some_less)
  from assms(2) have pos: "0 < length xs" by simp
  have nth: "(map Some xs @ replicate (?c - length xs) None) ! (length xs - 1)
             = Some (xs ! (length xs - 1))"
    using pos by (simp add: nth_append)
  have upd: "(map Some xs @ replicate (?c - length xs) None)[length xs - 1 := None]
             = map Some (butlast xs) @ replicate (?c - length (butlast xs)) None"
    using assms(2) le by (rule butlast_slots)
  have d: "destroy_at (Ptr b (length xs - 1)) h
           = (Inr (), h\<lparr>blocks := (blocks h)
                [b := Some (map Some (butlast xs) @ replicate (?c - length (butlast xs)) None)]\<rparr>)"
  proof -
    have lt: "length xs - 1 < ?c" using pos le by arith
    show ?thesis
      using lt nth upd blk
      by (simp add: destroy_at_def andthen_def load_def put_slot_def)
  qed
  have cpos: "0 < ?c" and le': "length xs - 1 \<le> ?c"
    using pos le by arith+
  show ?thesis
    using pos cpos le' b d Ptr i sz cb
    by (simp add: PopBack_def GetAddress_def represents_def Size_def Capacity_def
        block_at_update_same)
qed

text \<open>
  C8. On a vector that holds a non-empty sequence, PopBack returns normally, destroys the
  last live element (its slot is raw memory afterwards, the other elements stay) and
  decrements the size, keeping the capacity; on a vector of size 0 it returns normally and
  changes neither the vector nor the heap.
\<close>

theorem PopBack_correct:
  "(represents v h xs \<and> xs \<noteq> [] \<longrightarrow>
      fst (PopBack v h) = Inr ()
      \<and> represents (fst (snd (PopBack v h))) (snd (snd (PopBack v h))) (butlast xs)
      \<and> Size (fst (snd (PopBack v h))) = Size v - 1
      \<and> Capacity (fst (snd (PopBack v h))) = Capacity v)
   \<and> (size_m v = 0 \<longrightarrow> PopBack v h = (Inr (), v, h))"
  using PopBack_nonempty [of v h xs] by (simp add: PopBack_def)

theorem PopBack_correct_witness:
  "represents ex_vec ex_heap [10, 20]
   \<and> fst (PopBack ex_vec ex_heap) = Inr ()
   \<and> represents (fst (snd (PopBack ex_vec ex_heap))) (snd (snd (PopBack ex_vec ex_heap))) [10]
   \<and> Size (fst (snd (PopBack ex_vec ex_heap))) = 1
   \<and> size_m Vector_default = 0
   \<and> PopBack Vector_default empty_heap = (Inr (), Vector_default, empty_heap)"
proof -
  have r: "represents ex_vec ex_heap [10, 20]"
    by (simp add: represents_def block_at_def ex_vec_def ex_heap_def numeral_2_eq_2)
  have s: "Size ex_vec = 2"
    by (simp add: Size_def ex_vec_def)
  have z: "size_m Vector_default = 0"
    by (simp add: Vector_default_def)
  show ?thesis
    using r s z PopBack_correct [of ex_vec ex_heap "[10, 20]"]
      PopBack_correct [of Vector_default empty_heap "[]"]
    by simp
qed

subsection \<open>Erase\<close>

text \<open>
  C6. Let the vector hold \<open>xs\<close> and let \<open>pos\<close> point to its element number \<open>off\<close>, with
  \<open>off < length xs\<close>. When the move assignment of the element type cannot throw, Erase
  returns normally (it is no-throw). Whenever Erase returns normally, for every element
  type, also one whose move assignment may throw: the result is \<open>pos\<close> again, the size
  has dropped by exactly 1 while capacity and block stay, the elements before \<open>pos\<close> are
  untouched, and the result is the end iterator when the removed element was the last.
  When moreover a move assignment that completes gives its target the value of its
  source, the vector afterwards holds \<open>xs\<close> without element \<open>off\<close>, in the same order, and
  the returned iterator points to the element that followed the removed one. The witness
  erases the 20 from 10, 20, 30, for \<^verbatim>\<open>int\<close> and for an element type whose move assignment
  can throw.
\<close>

theorem Erase_correct:
  assumes "represents v h xs" and "off < length xs"
  shows "(move_assign_cannot_throw T \<longrightarrow>
            fst (Erase T (ptr_plus (begin_it v) off) v h) = Inr (ptr_plus (begin_it v) off))
    \<and> (\<forall>p. fst (Erase T (ptr_plus (begin_it v) off) v h) = Inr p \<longrightarrow>
         p = ptr_plus (begin_it v) off
         \<and> Size (fst (snd (Erase T (ptr_plus (begin_it v) off) v h))) = Size v - 1
         \<and> Capacity (fst (snd (Erase T (ptr_plus (begin_it v) off) v h))) = Capacity v
         \<and> begin_it (fst (snd (Erase T (ptr_plus (begin_it v) off) v h))) = begin_it v
         \<and> (\<exists>zs. length zs = length xs - Suc off
               \<and> represents (fst (snd (Erase T (ptr_plus (begin_it v) off) v h)))
                   (snd (snd (Erase T (ptr_plus (begin_it v) off) v h))) (take off xs @ zs))
         \<and> (Suc off = length xs \<longrightarrow>
               p = end_it (fst (snd (Erase T (ptr_plus (begin_it v) off) v h))))
         \<and> (move_assign_transfers T \<longrightarrow>
              represents (fst (snd (Erase T (ptr_plus (begin_it v) off) v h)))
                (snd (snd (Erase T (ptr_plus (begin_it v) off) v h)))
                (take off xs @ drop (Suc off) xs)
              \<and> (Suc off < length xs \<longrightarrow>
                    fst (load p (snd (snd (Erase T (ptr_plus (begin_it v) off) v h))))
                      = Inr (xs ! Suc off))))"
proof (intro conjI allI impI)
  assume "move_assign_cannot_throw T"
  then have "moves_complete T (xs ! off) (drop (Suc off) xs)"
    by (rule moves_complete_cannot_throw)
  then show "fst (Erase T (ptr_plus (begin_it v) off) v h) = Inr (ptr_plus (begin_it v) off)"
    by (rule Erase_general(1) [OF assms])
next
  fix p
  assume ret: "fst (Erase T (ptr_plus (begin_it v) off) v h) = Inr p"
  let ?q = "ptr_plus (begin_it v) off"
  let ?zs = "fst (shift_left T (xs ! off) (drop (Suc off) xs))"
  have mc: "moves_complete T (xs ! off) (drop (Suc off) xs)"
    using Erase_throws(1) [OF assms, of T] ret by auto
  obtain r1 v1 h1 where E: "Erase T ?q v h = (r1, v1, h1)"
    by (cases "Erase T ?q v h") auto
  from Erase_general [OF assms mc] E
  have r1: "r1 = Inr ?q" and v1: "v1 = v\<lparr>size_m := size_m v - 1\<rparr>"
    and rep: "represents v1 h1 (take off xs @ ?zs)"
    by simp_all
  show p: "p = ?q" using ret E r1 by simp
  show "Size (fst (snd (Erase T ?q v h))) = Size v - 1"
    and "Capacity (fst (snd (Erase T ?q v h))) = Capacity v"
    and "begin_it (fst (snd (Erase T ?q v h))) = begin_it v"
    unfolding E by (simp_all add: v1 Size_def Capacity_def begin_it_def)
  show "\<exists>zs. length zs = length xs - Suc off
          \<and> represents (fst (snd (Erase T ?q v h))) (snd (snd (Erase T ?q v h))) (take off xs @ zs)"
    unfolding E using rep by (intro exI [of _ ?zs]) simp
  have xne: "xs \<noteq> []" using assms(2) by auto
  from assms(1) xne obtain bb where buf: "buffer_m (data_m v) = Ptr bb 0"
    by (rule represents_nonempty_block)
  have sz: "size_m v = length xs" using assms(1) by (simp add: represents_def)
  show "p = end_it (fst (snd (Erase T ?q v h)))" if "Suc off = length xs"
    unfolding E p using that [symmetric] sz buf
    by (simp add: v1 end_it_def begin_it_def GetAddress_def)
  {
    assume tr: "move_assign_transfers T"
    have zs: "?zs = drop (Suc off) xs" using tr mc by (rule shift_left_transfers)
    show r: "represents (fst (snd (Erase T ?q v h))) (snd (snd (Erase T ?q v h)))
               (take off xs @ drop (Suc off) xs)"
      unfolding E using rep zs by simp
    show "fst (load p (snd (snd (Erase T ?q v h)))) = Inr (xs ! Suc off)" if lt: "Suc off < length xs"
    proof -
      let ?ys = "take off xs @ drop (Suc off) xs"
      have i: "off < length ?ys" using lt by simp
      have n: "?ys ! off = xs ! Suc off" using lt by (simp add: nth_append)
      have b1: "begin_it v1 = begin_it v" by (simp add: v1 begin_it_def)
      have "load (ptr_plus (begin_it v1) off) h1 = (Inr (?ys ! off), h1)"
        using r [unfolded E] i by (intro load_represented) simp_all
      then show ?thesis unfolding E p using n b1 by simp
    qed
  }
qed

theorem Erase_correct_witness:
  "represents ex_vec3 ex_heap3 [10, 20, 30] \<and> (1 :: nat) < length [10, 20, 30 :: int]
   \<and> move_assign_cannot_throw int_ops \<and> move_assign_transfers int_ops
   \<and> fst (Erase int_ops (Ptr 0 1) ex_vec3 ex_heap3) = Inr (Ptr 0 1)
   \<and> Size (fst (snd (Erase int_ops (Ptr 0 1) ex_vec3 ex_heap3))) = 2
   \<and> represents (fst (snd (Erase int_ops (Ptr 0 1) ex_vec3 ex_heap3)))
        (snd (snd (Erase int_ops (Ptr 0 1) ex_vec3 ex_heap3))) [10, 30]
   \<and> fst (load (Ptr 0 1) (snd (snd (Erase int_ops (Ptr 0 1) ex_vec3 ex_heap3)))) = Inr 30
   \<and> \<not> move_assign_cannot_throw throw_ops \<and> move_assign_transfers throw_ops
   \<and> fst (Erase throw_ops (Ptr 0 1) ex_vec3 ex_heap3) = Inr (Ptr 0 1)
   \<and> Size (fst (snd (Erase throw_ops (Ptr 0 1) ex_vec3 ex_heap3))) = 2
   \<and> represents (fst (snd (Erase throw_ops (Ptr 0 1) ex_vec3 ex_heap3)))
        (snd (snd (Erase throw_ops (Ptr 0 1) ex_vec3 ex_heap3))) [10, 30]"
proof -
  have p: "ptr_plus (begin_it ex_vec3) (Suc 0) = Ptr 0 1"
    by (simp add: begin_it_def GetAddress_def ex_vec3_def)
  have s: "Size ex_vec3 = 3" by (simp add: Size_def ex_vec3_def)
  have l: "(1 :: nat) < length [10, 20, 30 :: int]" by simp
  have t: "fst (Erase throw_ops (Ptr 0 1) ex_vec3 ex_heap3) = Inr (Ptr 0 1)"
    by code_simp
  have n: "\<not> move_assign_cannot_throw throw_ops"
    by (auto simp: move_assign_cannot_throw_def throw_ops_def intro: exI [of _ 13])
  show ?thesis
    using Erase_correct [OF represents_ex3 l, of int_ops]
      Erase_correct [OF represents_ex3 l, of throw_ops] represents_ex3
      int_ops_faithful(5) int_ops_transfers throw_ops_transfers t n
    by (simp add: p s)
qed

text \<open>
  A run in which a move assignment throws: erasing the 20 from 10, 20, 13, 30 moves the
  13 first, which throws; Erase ends in that exception and the size is still 4.
\<close>

lemma Erase_throwing_run:
  "represents ex_vec4 ex_heap4 [10, 20, 13, 30]
   \<and> fst (Erase throw_ops (Ptr 0 1) ex_vec4 ex_heap4) = Inl (Thrown 2)
   \<and> Size (fst (snd (Erase throw_ops (Ptr 0 1) ex_vec4 ex_heap4))) = 4"
proof -
  have r: "represents ex_vec4 ex_heap4 [10, 20, 13, 30]"
    by (simp add: represents_def ex_vec4_def ex_heap4_def block_at_def)
  have e: "Erase throw_ops (Ptr 0 1) ex_vec4 ex_heap4
     = (Inl (Thrown 2), ex_vec4, ex_heap4)"
    by code_simp
  show ?thesis unfolding e using r by (simp add: Size_def ex_vec4_def)
qed

subsection \<open>Copy assignment\<close>

text \<open>
  C9. Let \<open>a\<close> hold \<open>xs\<close> and \<open>b\<close> hold \<open>ys\<close> in different blocks, with the size of \<open>b\<close> at
  most the capacity of \<open>a\<close>. For every element type, and however \<^verbatim>\<open>a = b\<close> ends, \<open>a\<close> keeps
  its capacity and its block, and nothing is allocated or released. When the copies of
  the element type cannot throw, the assignment returns normally. Whenever it returns
  normally, \<open>a\<close> has the size of \<open>b\<close> and is a vector of that many elements, and \<open>b\<close>
  still holds \<open>ys\<close>; when moreover a copy that completes has produced the value of its
  source, \<open>a\<close> holds \<open>ys\<close>. Assigning \<open>a\<close> to itself changes nothing. The witness assigns a
  vector of 2 elements to one that holds 5, and, for an element type whose copy
  constructor can throw, a vector of 3 elements to one that holds 2 with capacity 4.
\<close>

theorem Vector_copy_assign_within_capacity:
  assumes "represents a h xs" and "represents b h ys" and "length ys \<le> Capacity a"
    and "disjoint_storage a b"
  shows "Capacity (fst (snd (Vector_copy_assign T (Other b) a h))) = Capacity a
    \<and> begin_it (fst (snd (Vector_copy_assign T (Other b) a h))) = begin_it a
    \<and> length (blocks (snd (snd (Vector_copy_assign T (Other b) a h)))) = length (blocks h)
    \<and> avail (snd (snd (Vector_copy_assign T (Other b) a h))) = avail h
    \<and> (faithful_copy T \<and> faithful_copy_assign T \<longrightarrow>
         fst (Vector_copy_assign T (Other b) a h) = Inr ())
    \<and> (fst (Vector_copy_assign T (Other b) a h) = Inr () \<longrightarrow>
         Size (fst (snd (Vector_copy_assign T (Other b) a h))) = length ys
         \<and> (\<exists>zs. length zs = length ys
               \<and> represents (fst (snd (Vector_copy_assign T (Other b) a h)))
                   (snd (snd (Vector_copy_assign T (Other b) a h))) zs)
         \<and> represents b (snd (snd (Vector_copy_assign T (Other b) a h))) ys
         \<and> (copy_transfers T \<longrightarrow>
              represents (fst (snd (Vector_copy_assign T (Other b) a h)))
                (snd (snd (Vector_copy_assign T (Other b) a h))) ys))
    \<and> Vector_copy_assign T Self a h = (Inr (), a, h)"
proof -
  let ?ok = "assigns_complete T (take (length ys) xs) (take (length xs) ys)
             \<and> copies_complete T (drop (length xs) ys)"
  let ?ws = "assigned T (take (length ys) xs) (take (length xs) ys)
             @ copied T (drop (length xs) ys)"
  have fit: "length ys \<le> capacity_m (data_m a)" using assms(3) by (simp add: Capacity_def)
  have sb: "size_m b = length ys" using assms(2) by (simp add: represents_def)
  have ng: "\<not> size_m b > capacity_m (data_m a)" using fit sb by simp
  note F = Vector_copy_assign_fits [OF assms(1,2) fit assms(4), of T]
  have frame: "Capacity (fst (snd (Vector_copy_assign T (Other b) a h))) = Capacity a"
    "begin_it (fst (snd (Vector_copy_assign T (Other b) a h))) = begin_it a"
    "length (blocks (snd (snd (Vector_copy_assign T (Other b) a h)))) = length (blocks h)"
    "avail (snd (snd (Vector_copy_assign T (Other b) a h))) = avail h"
    using Vector_copy_assign_frame [OF ng, of T h] by (simp_all add: Capacity_def begin_it_def)
  have lw: "length ?ws = length ys" by simp
  have total: "fst (Vector_copy_assign T (Other b) a h) = Inr ()"
    if f: "faithful_copy T \<and> faithful_copy_assign T"
  proof -
    have "?ok"
      using f by (simp add: faithful_assigns_complete faithful_copies_complete)
    then show ?thesis using F by auto
  qed
  have partial: "Size (fst (snd (Vector_copy_assign T (Other b) a h))) = length ys
         \<and> (\<exists>zs. length zs = length ys
               \<and> represents (fst (snd (Vector_copy_assign T (Other b) a h)))
                   (snd (snd (Vector_copy_assign T (Other b) a h))) zs)
         \<and> represents b (snd (snd (Vector_copy_assign T (Other b) a h))) ys
         \<and> (copy_transfers T \<longrightarrow>
              represents (fst (snd (Vector_copy_assign T (Other b) a h)))
                (snd (snd (Vector_copy_assign T (Other b) a h))) ys)"
    if ret: "fst (Vector_copy_assign T (Other b) a h) = Inr ()"
  proof -
    have ok: "?ok"
    proof (rule ccontr)
      assume "\<not> ?ok"
      then have "\<exists>e. fst (Vector_copy_assign T (Other b) a h) = Inl e" using F by simp
      then show False using ret by auto
    qed
    then obtain h' where
      E: "Vector_copy_assign T (Other b) a h = (Inr (), a\<lparr>size_m := length ys\<rparr>, h')"
      and r: "represents (a\<lparr>size_m := length ys\<rparr>) h' ?ws" "represents b h' ys"
      using F by auto
    have ws: "?ws = ys" if t: "copy_transfers T"
    proof -
      have "?ws = take (length xs) ys @ drop (length xs) ys"
        using ok t by (simp add: assigned_transfers copied_transfers)
      then show ?thesis by simp
    qed
    have ex: "\<exists>zs. length zs = length ys \<and> represents (a\<lparr>size_m := length ys\<rparr>) h' zs"
      using r(1) lw by blast
    show ?thesis unfolding E using r ex ws by (auto simp: Size_def)
  qed
  have s: "Vector_copy_assign T Self a h = (Inr (), a, h)"
    by (simp add: Vector_copy_assign_def)
  show ?thesis using frame total partial s by blast
qed

theorem Vector_copy_assign_within_capacity_witness:
  "represents ex_vec5 ex_heap52 [1, 2, 3, 4, 5] \<and> represents ex_src2 ex_heap52 [7, 8]
   \<and> length [7, 8 :: int] \<le> Capacity ex_vec5 \<and> disjoint_storage ex_vec5 ex_src2
   \<and> faithful_copy int_ops \<and> faithful_copy_assign int_ops \<and> copy_transfers int_ops
   \<and> fst (Vector_copy_assign int_ops (Other ex_src2) ex_vec5 ex_heap52) = Inr ()
   \<and> Size (fst (snd (Vector_copy_assign int_ops (Other ex_src2) ex_vec5 ex_heap52))) = 2
   \<and> Capacity (fst (snd (Vector_copy_assign int_ops (Other ex_src2) ex_vec5 ex_heap52))) = 5
   \<and> represents (fst (snd (Vector_copy_assign int_ops (Other ex_src2) ex_vec5 ex_heap52)))
        (snd (snd (Vector_copy_assign int_ops (Other ex_src2) ex_vec5 ex_heap52))) [7, 8]
   \<and> represents ex_vec2 ex_heap23 [10, 20] \<and> represents ex_src3 ex_heap23 [7, 8, 9]
   \<and> length [7, 8, 9 :: int] \<le> Capacity ex_vec2 \<and> disjoint_storage ex_vec2 ex_src3
   \<and> \<not> faithful_copy throw_ops \<and> copy_transfers throw_ops
   \<and> fst (Vector_copy_assign throw_ops (Other ex_src3) ex_vec2 ex_heap23) = Inr ()
   \<and> Size (fst (snd (Vector_copy_assign throw_ops (Other ex_src3) ex_vec2 ex_heap23))) = 3
   \<and> Capacity (fst (snd (Vector_copy_assign throw_ops (Other ex_src3) ex_vec2 ex_heap23))) = 4
   \<and> represents (fst (snd (Vector_copy_assign throw_ops (Other ex_src3) ex_vec2 ex_heap23)))
        (snd (snd (Vector_copy_assign throw_ops (Other ex_src3) ex_vec2 ex_heap23))) [7, 8, 9]"
proof -
  have a: "represents ex_vec5 ex_heap52 [1, 2, 3, 4, 5]"
    by (simp add: represents_def ex_vec5_def ex_heap52_def block_at_def)
  have b: "represents ex_src2 ex_heap52 [7, 8]"
    by (simp add: represents_def ex_src2_def ex_heap52_def block_at_def)
  have c: "Capacity ex_vec5 = 5" by (simp add: Capacity_def ex_vec5_def)
  have l: "length [7, 8 :: int] \<le> Capacity ex_vec5" by (simp add: c)
  have d: "disjoint_storage ex_vec5 ex_src2"
    by (simp add: disjoint_storage_def ex_vec5_def ex_src2_def)
  have a': "represents ex_vec2 ex_heap23 [10, 20]"
    by (simp add: represents_def ex_vec2_def ex_heap23_def block_at_def numeral_2_eq_2)
  have b': "represents ex_src3 ex_heap23 [7, 8, 9]"
    by (simp add: represents_def ex_src3_def ex_heap23_def block_at_def)
  have c': "Capacity ex_vec2 = 4" by (simp add: Capacity_def ex_vec2_def)
  have l': "length [7, 8, 9 :: int] \<le> Capacity ex_vec2" by (simp add: c')
  have d': "disjoint_storage ex_vec2 ex_src3"
    by (simp add: disjoint_storage_def ex_vec2_def ex_src3_def)
  have n: "\<not> faithful_copy throw_ops"
    by (auto simp: faithful_copy_def throw_ops_def intro: exI [of _ 13])
  have t: "fst (Vector_copy_assign throw_ops (Other ex_src3) ex_vec2 ex_heap23) = Inr ()"
    by code_simp
  show ?thesis
    using Vector_copy_assign_within_capacity [OF a b l d, of int_ops]
      Vector_copy_assign_within_capacity [OF a' b' l' d', of throw_ops]
      a b l d a' b' l' d' n t int_ops_faithful(1,3) int_ops_copy_transfers throw_ops_copy_transfers
    by (simp add: c c')
qed

text \<open>
  A run in which a copy throws: assigning 7, 8, 13 to the vector that holds 10, 20 with
  capacity 4 copy-constructs the third element, which throws; the assignment ends in
  that exception, and the size is still 2 and the capacity 4.
\<close>

lemma Vector_copy_assign_throwing_run:
  "represents ex_vec2 ex_heap23_throw [10, 20] \<and> represents ex_src3 ex_heap23_throw [7, 8, 13]
   \<and> fst (Vector_copy_assign throw_ops (Other ex_src3) ex_vec2 ex_heap23_throw) = Inl (Thrown 1)
   \<and> Size (fst (snd (Vector_copy_assign throw_ops (Other ex_src3) ex_vec2 ex_heap23_throw))) = 2
   \<and> Capacity (fst (snd (Vector_copy_assign throw_ops (Other ex_src3) ex_vec2 ex_heap23_throw))) = 4"
proof -
  have a: "represents ex_vec2 ex_heap23_throw [10, 20]"
    by (simp add: represents_def ex_vec2_def ex_heap23_throw_def block_at_def numeral_2_eq_2)
  have b: "represents ex_src3 ex_heap23_throw [7, 8, 13]"
    by (simp add: represents_def ex_src3_def ex_heap23_throw_def block_at_def)
  have e: "fst (Vector_copy_assign throw_ops (Other ex_src3) ex_vec2 ex_heap23_throw) = Inl (Thrown 1)"
    by code_simp
  have v: "fst (snd (Vector_copy_assign throw_ops (Other ex_src3) ex_vec2 ex_heap23_throw)) = ex_vec2"
    by code_simp
  show ?thesis unfolding v using a b e by (simp add: Size_def Capacity_def ex_vec2_def)
qed

subsection \<open>Repeated PushBack\<close>

text \<open>
  Pushing 10, 20 and 30 onto an empty vector: every call returns, the capacity is 1, then
  2, then 4, and the vector then has size 3 and holds 10, 20, 30.
\<close>

lemma PushBack_10_20_30:
  "\<exists>v1 h1 v2 h2 v3 h3.
     PushBack_all int_ops [10] Vector_default empty_heap = (Inr (), v1, h1)
     \<and> PushBack_all int_ops [10, 20] Vector_default empty_heap = (Inr (), v2, h2)
     \<and> PushBack_all int_ops [10, 20, 30] Vector_default empty_heap = (Inr (), v3, h3)
     \<and> Capacity v1 = 1 \<and> Capacity v2 = 2 \<and> Capacity v3 = 4
     \<and> Size v3 = 3 \<and> represents v3 h3 [10, 20, 30]"
proof -
  have fr: "faithful_relocation int_ops"
    using int_ops_faithful(2) by (simp add: faithful_relocation_def int_ops_def)
  note P = PushBack_all_ok [OF int_ops_faithful(1) fr, of _ empty_heap]
  from P [of "[10]"] obtain v1 h1 where
    a: "PushBack_all int_ops [10] Vector_default empty_heap = (Inr (), v1, h1)"
       "Capacity v1 = progression (length [10 :: int])"
    by (auto simp: empty_heap_def)
  from P [of "[10, 20]"] obtain v2 h2 where
    b: "PushBack_all int_ops [10, 20] Vector_default empty_heap = (Inr (), v2, h2)"
       "Capacity v2 = progression (length [10, 20 :: int])"
    by (auto simp: empty_heap_def)
  from P [of "[10, 20, 30]"] obtain v3 h3 where
    c: "PushBack_all int_ops [10, 20, 30] Vector_default empty_heap = (Inr (), v3, h3)"
       "Capacity v3 = progression (length [10, 20, 30 :: int])"
       "represents v3 h3 [10, 20, 30]"
    by (auto simp: empty_heap_def)
  have p: "progression (Suc 0) = 1" "progression (Suc (Suc 0)) = 2"
    "progression (Suc (Suc (Suc 0))) = 4"
    by simp_all
  have s: "Size v3 = 3" using c(3) by (simp add: represents_def Size_def)
  show ?thesis
    using a b c p s by simp
qed

text \<open>
  C4. Pushing \<open>k\<close> values onto an empty vector gives size \<open>k\<close>, the values in push order
  and the capacities 0, 1, 2, 4, 8, ... of the doubling progression: that is lemma
  \<open>PushBack_all_ok\<close> (with \<open>progression_bounds\<close>, and \<open>PushBack_10_20_30\<close> for the
  three pushes of the example), and it needs \<open>k \<le> 2^31\<close>, because the
  relocation count passes through an \<^verbatim>\<open>int\<close>. The claim has no such bound, and it fails
  beyond it: after \<open>2^31 + 1\<close> pushes of 0 onto an empty vector of \<^verbatim>\<open>int\<close> every call has
  returned normally and the size is \<open>2^31 + 1\<close>, but the push that grew the full block of
  \<open>2^31\<close> elements converted the count to \<open>-2^31\<close>, relocated nothing and destroyed the old
  elements: the first slot of the vector is raw memory, and reading it is undefined.
\<close>

theorem PushBack_all_loses_elements:
  "fst (PushBack_all int_ops (replicate 2147483649 0) Vector_default big_heap) = Inr ()
   \<and> Size (fst (snd (PushBack_all int_ops (replicate 2147483649 0) Vector_default big_heap)))
       = 2147483649
   \<and> fst (load (begin_it (fst (snd (PushBack_all int_ops (replicate 2147483649 0) Vector_default big_heap))))
        (snd (snd (PushBack_all int_ops (replicate 2147483649 0) Vector_default big_heap))))
       = Inl UndefinedBehaviour"
proof -
  let ?xs = "replicate 2147483648 (0 :: int)"
  have fr: "faithful_relocation int_ops"
    using int_ops_faithful(2) by (simp add: faithful_relocation_def int_ops_def)
  have l: "length ?xs \<le> 2147483648" by simp
  have m: "3 * length ?xs \<le> avail big_heap" by (simp add: big_heap_def)
  from PushBack_all_ok [OF int_ops_faithful(1) fr l m] obtain v' h' where
    E: "PushBack_all int_ops ?xs Vector_default big_heap = (Inr (), v', h')"
    and r: "represents v' h' ?xs" and c: "Capacity v' = progression (length ?xs)"
    and a: "avail h' + Capacity v' = avail big_heap"
    by blast
  have "progression (2 ^ 31) = 2 ^ 31" by (rule progression_power)
  then have p: "progression 2147483648 = 2147483648" by simp
  have full: "length ?xs = capacity_m (data_m v')" using c p by (simp add: Capacity_def)
  have av: "2 * length ?xs \<le> avail h'" using a c p by (simp add: big_heap_def)
  from EmplaceBack_grow_wrapped [OF r full _ _ av, of int_ops 0] obtain v'' h'' where
    B: "EmplaceBack int_ops (Inr 0) v' h' = (Inr (Ptr (length (blocks h')) (length ?xs)), v'', h'')"
    and s: "size_m v'' = length ?xs + 1" and b: "begin_it v'' = Ptr (length (blocks h')) 0"
    and blk: "block_at h'' (length (blocks h'))
          = Some (replicate (length ?xs) None @ Some 0 # replicate (length ?xs - 1) None)"
    by auto
  have P: "PushBack int_ops 0 v' h' = (Inr (), v'', h'')"
    using B by (simp add: PushBack_def discard_def int_ops_def)
  have sp: "replicate 2147483649 (0::int) = ?xs @ [0]"
    using replicate_Suc [of 2147483648 "0::int"] by (simp add: replicate_append_same)
  have A: "PushBack_all int_ops (replicate 2147483649 0) Vector_default big_heap = (Inr (), v'', h'')"
    unfolding sp by (simp add: PushBack_all_snoc E P)
  have L: "load (Ptr (length (blocks h')) 0) h'' = (Inl UndefinedBehaviour, h'')"
    using blk by (rule load_raw) simp
  show ?thesis
    unfolding A using s b L by (simp add: Size_def)
qed

subsection \<open>Emplace and Insert\<close>

text \<open>
  For a vector that holds fewer than \<open>2^31\<close> elements, Emplace and Insert at any position
  from begin to end splice the new element in, add 1 to the size and return an iterator
  to the new element, on the growing path and on the path that shifts in place.
\<close>

lemma Emplace_correct:
  assumes "represents v h xs" and "off \<le> length xs"
    and "faithful_relocation T" and "faithful_move T" and "faithful_move_assign T"
    and "length xs < 2147483648"
    and "length xs = Capacity v \<longrightarrow> grown (length xs) \<le> avail h"
  shows "fst (Emplace T (Inr x) (ptr_plus (begin_it v) off) v h)
           = Inr (ptr_plus (begin_it (fst (snd (Emplace T (Inr x) (ptr_plus (begin_it v) off) v h)))) off)
    \<and> represents (fst (snd (Emplace T (Inr x) (ptr_plus (begin_it v) off) v h)))
          (snd (snd (Emplace T (Inr x) (ptr_plus (begin_it v) off) v h)))
          (take off xs @ x # drop off xs)
    \<and> Size (fst (snd (Emplace T (Inr x) (ptr_plus (begin_it v) off) v h))) = Size v + 1
    \<and> fst (load (ptr_plus (begin_it (fst (snd (Emplace T (Inr x) (ptr_plus (begin_it v) off) v h)))) off)
             (snd (snd (Emplace T (Inr x) (ptr_plus (begin_it v) off) v h)))) = Inr x"
proof -
  from Emplace_ok [OF assms, of x] obtain v' h' where
    E: "Emplace T (Inr x) (ptr_plus (begin_it v) off) v h = (Inr (ptr_plus (begin_it v') off), v', h')"
    and r: "represents v' h' (take off xs @ x # drop off xs)" and s: "Size v' = Size v + 1"
    by blast
  have i: "off < length (take off xs @ x # drop off xs)" using assms(2) by simp
  have n: "(take off xs @ x # drop off xs) ! off = x"
    using assms(2) by (simp add: nth_append)
  have "load (ptr_plus (begin_it v') off) h' = (Inr x, h')"
    using load_represented [OF r i] n by simp
  then show ?thesis unfolding E using r s by simp
qed

lemma Insert_correct:
  assumes "represents v h xs" and "off \<le> length xs" and "faithful_copy T"
    and "faithful_relocation T" and "faithful_move T" and "faithful_move_assign T"
    and "length xs < 2147483648"
    and "length xs = Capacity v \<longrightarrow> grown (length xs) \<le> avail h"
  shows "fst (Insert T (ptr_plus (begin_it v) off) x v h)
           = Inr (ptr_plus (begin_it (fst (snd (Insert T (ptr_plus (begin_it v) off) x v h)))) off)
    \<and> represents (fst (snd (Insert T (ptr_plus (begin_it v) off) x v h)))
          (snd (snd (Insert T (ptr_plus (begin_it v) off) x v h)))
          (take off xs @ x # drop off xs)
    \<and> Size (fst (snd (Insert T (ptr_plus (begin_it v) off) x v h))) = Size v + 1"
proof -
  have c: "copy_ctor T x = Inr x" using assms(3) by (simp add: faithful_copy_def)
  show ?thesis
    using Emplace_correct [OF assms(1,2,4-8), of x] by (simp add: Insert_def c)
qed

lemma Insert_examples:
  "represents (fst (snd (Insert int_ops (Ptr 0 0) 5 ex_vec3 ex_heap3)))
     (snd (snd (Insert int_ops (Ptr 0 0) 5 ex_vec3 ex_heap3))) [5, 10, 20, 30]"
  "represents (fst (snd (Insert int_ops (Ptr 0 1) 5 ex_vec3 ex_heap3)))
     (snd (snd (Insert int_ops (Ptr 0 1) 5 ex_vec3 ex_heap3))) [10, 5, 20, 30]"
  "represents (fst (snd (Insert int_ops (Ptr 0 3) 5 ex_vec3 ex_heap3)))
     (snd (snd (Insert int_ops (Ptr 0 3) 5 ex_vec3 ex_heap3))) [10, 20, 30, 5]"
proof -
  have fr: "faithful_relocation int_ops"
    using int_ops_faithful(2) by (simp add: faithful_relocation_def int_ops_def)
  have b: "begin_it ex_vec3 = Ptr 0 0" by (simp add: begin_it_def GetAddress_def ex_vec3_def)
  have c: "Capacity ex_vec3 = 4" by (simp add: Capacity_def ex_vec3_def)
  have m: "length [10, 20, 30 :: int] = Capacity ex_vec3 \<longrightarrow> grown (length [10, 20, 30 :: int]) \<le> avail ex_heap3"
    by (simp add: c)
  note I = Insert_correct [OF represents_ex3 _ int_ops_faithful(1) fr int_ops_faithful(2,4) _ m, of _ 5]
  show "represents (fst (snd (Insert int_ops (Ptr 0 0) 5 ex_vec3 ex_heap3)))
     (snd (snd (Insert int_ops (Ptr 0 0) 5 ex_vec3 ex_heap3))) [5, 10, 20, 30]"
    using I [of 0] by (simp add: b)
  show "represents (fst (snd (Insert int_ops (Ptr 0 1) 5 ex_vec3 ex_heap3)))
     (snd (snd (Insert int_ops (Ptr 0 1) 5 ex_vec3 ex_heap3))) [10, 5, 20, 30]"
    using I [of 1] by (simp add: b)
  show "represents (fst (snd (Insert int_ops (Ptr 0 3) 5 ex_vec3 ex_heap3)))
     (snd (snd (Insert int_ops (Ptr 0 3) 5 ex_vec3 ex_heap3))) [10, 20, 30, 5]"
    using I [of 3] by (simp add: b)
qed

text \<open>
  C5. Insert is claimed to splice the new element into every vector, at every position.
  That holds below \<open>2^31\<close> elements (lemmas \<open>Emplace_correct\<close> and \<open>Insert_correct\<close>), but
  \<^verbatim>\<open>offset\<close> and the relocation counts are \<^verbatim>\<open>int\<close>: inserting 7 at begin of a full vector of
  \<open>2^31\<close> zeros returns normally with an iterator to the 7 and size \<open>2^31 + 1\<close>, yet the count
  \<^verbatim>\<open>size_ - offset\<close> became \<open>-2^31\<close>, nothing was relocated and the old elements were
  destroyed: the slot after the inserted element is raw memory, not the old first
  element.
\<close>

theorem Insert_at_begin_loses_elements:
  "represents big_vec big_full_heap (replicate 2147483648 0)
   \<and> fst (Insert int_ops (begin_it big_vec) 7 big_vec big_full_heap) = Inr (Ptr 1 0)
   \<and> Size (fst (snd (Insert int_ops (begin_it big_vec) 7 big_vec big_full_heap))) = 2147483649
   \<and> fst (load (Ptr 1 0) (snd (snd (Insert int_ops (begin_it big_vec) 7 big_vec big_full_heap))))
       = Inr 7
   \<and> fst (load (Ptr 1 1) (snd (snd (Insert int_ops (begin_it big_vec) 7 big_vec big_full_heap))))
       = Inl UndefinedBehaviour"
proof -
  let ?xs = "replicate 2147483648 (0 :: int)"
  have r: "represents big_vec big_full_heap ?xs"
    by (simp add: represents_def big_vec_def big_full_heap_def block_at_def)
  have full: "length ?xs = capacity_m (data_m big_vec)" by (simp add: big_vec_def)
  have av: "2 * length ?xs \<le> avail big_full_heap" by (simp add: big_full_heap_def)
  have lb: "length (blocks big_full_heap) = 1" by (simp add: big_full_heap_def)
  from Emplace_grow_wrapped [OF r full _ _ av, of int_ops 7] obtain v' h' where
    E: "Emplace int_ops (Inr 7) (begin_it big_vec) big_vec big_full_heap = (Inr (Ptr 1 0), v', h')"
    and s: "size_m v' = length ?xs + 1"
    and blk: "block_at h' 1 = Some (Some 7 # replicate (2 * length ?xs - 1) None)"
    by (auto simp: lb)
  have I: "Insert int_ops (begin_it big_vec) 7 big_vec big_full_heap = (Inr (Ptr 1 0), v', h')"
    using E by (simp add: Insert_def int_ops_def)
  have blk0: "block_at h' 1 = Some ([] @ Some 7 # replicate 4294967295 None)"
    using blk by simp
  have l0: "load (Ptr 1 0) h' = (Inr 7, h')"
    by (rule load_mid [OF blk0]) simp
  have rs: "replicate 4294967295 (None :: int option) = None # replicate 4294967294 None"
    using replicate_split_at [of 0 4294967295 "None :: int option"] by simp
  have blk1: "block_at h' 1 = Some ([Some 7] @ None # replicate 4294967294 None)"
    using blk0 rs by simp
  have l1: "load (Ptr 1 1) h' = (Inl UndefinedBehaviour, h')"
    by (rule load_raw_mid [OF blk1]) simp
  show ?thesis unfolding I using r s l0 l1 by (simp add: Size_def)
qed

subsection \<open>Exceptions on the growing paths\<close>




subsection \<open>Exceptions on the in-place path of Emplace\<close>

text \<open>
  C3. The vector holds 13, 20, 30 with capacity 4, and 5 is emplaced at begin for an
  element type whose move assignment throws for the source 13. The \<^verbatim>\<open>try\<close> block
  move-constructs 30 into the trailing slot, moves 20 up and then throws: the block holds
  13, 20, 20, 30. The handler calls \<^verbatim>\<open>operator delete(end())\<close>; \<^verbatim>\<open>end()\<close> is slot 3 of the
  block, not an address that \<^verbatim>\<open>operator new\<close> returned, so the call is undefined and
  Emplace does not end with the exception and a valid container. The size member is
  still 3 and no destructor ran for the trailing slot.
\<close>

theorem Emplace_inplace_throw_is_undefined:
  "represents ex_vec13 ex_heap13 [13, 20, 30]
   \<and> fst (Emplace_inplace throw_ops (Inr 5) (Ptr 0 0) 0 ex_vec13 ex_heap13) = Inl (Thrown 2)
   \<and> block_at (snd (Emplace_inplace throw_ops (Inr 5) (Ptr 0 0) 0 ex_vec13 ex_heap13)) 0
       = Some [Some 13, Some 20, Some 20, Some 30]
   \<and> end_it ex_vec13 = Ptr 0 3
   \<and> fst (operator_delete (end_it ex_vec13)
            (snd (Emplace_inplace throw_ops (Inr 5) (Ptr 0 0) 0 ex_vec13 ex_heap13)))
       = Inl UndefinedBehaviour
   \<and> fst (Emplace throw_ops (Inr 5) (Ptr 0 0) ex_vec13 ex_heap13) = Inl UndefinedBehaviour
   \<and> size_m (fst (snd (Emplace throw_ops (Inr 5) (Ptr 0 0) ex_vec13 ex_heap13))) = 3"
proof -
  have r: "represents ex_vec13 ex_heap13 [13, 20, 30]"
    by (simp add: represents_def ex_vec13_def ex_heap13_def block_at_def)
  have a: "Emplace_inplace throw_ops (Inr 5) (Ptr 0 0) 0 ex_vec13 ex_heap13
     = (Inl (Thrown 2), \<lparr>blocks = [Some [Some 13, Some 20, Some 20, Some 30]], avail = 100\<rparr>)"
    by code_simp
  have b: "Emplace throw_ops (Inr 5) (Ptr 0 0) ex_vec13 ex_heap13
     = (Inl UndefinedBehaviour, ex_vec13,
        \<lparr>blocks = [Some [Some 13, Some 20, Some 20, Some 30]], avail = 100\<rparr>)"
    by code_simp
  have e: "end_it ex_vec13 = Ptr 0 3"
    by (simp add: end_it_def GetAddress_def ex_vec13_def)
  show ?thesis
    unfolding a b e using r
    by (simp add: operator_delete_def block_at_def ex_vec13_def)
qed

end
